theory Spec2Isabelle
  imports Complex_Main "HOL-Library.Sublist" "HOL-Library.AList"
begin

section \<open>Text, characters and values\<close>

text \<open>
  A Python \<open>str\<close> is modelled as a \<open>string\<close> whose characters are read as the code
  points 0 to 255. On that range the whitespace characters of \<open>re\<close>'s \<open>\s\<close>, of
  \<open>str.strip\<close>, \<open>int\<close> and \<open>float\<close> are 9 to 13, 28 to 32, 133 and 160, and the decimal digits
  of \<open>\d\<close> are \<open>0\<close> to \<open>9\<close>.
\<close>

definition isspace :: "char \<Rightarrow> bool" where
  "isspace c = (of_char c \<in> set [9, 10, 11, 12, 13, 28, 29, 30, 31, 32, 133, 160 :: nat])"

definition isdecimal :: "char \<Rightarrow> bool" where
  "isdecimal c = (c \<in> set ''0123456789'')"

definition lower_char :: "char \<Rightarrow> char" where
  "lower_char c =
     (let n = (of_char c :: nat)
      in if (65 \<le> n \<and> n \<le> 90) \<or> (192 \<le> n \<and> n \<le> 222 \<and> n \<noteq> 215)
         then char_of (n + 32) else c)"

definition lower :: "string \<Rightarrow> string" where
  "lower s = map lower_char s"

definition strip :: "string \<Rightarrow> string" where
  "strip s = rev (dropWhile isspace (rev (dropWhile isspace s)))"

text \<open>
  The exceptions the modelled code can raise. The messages of the built-in conversions are
  shortened; the message of the explicit \<open>raise\<close> in \<open>calculate_mean_rms\<close> is the source's.
\<close>

datatype error = ValueError string | AttributeError

text \<open>
  A value stored in the dictionary: a Python \<open>int\<close>, or a Python \<open>float\<close>. A float is
  represented by the exact decimal value of the literal that \<open>float\<close> read, which Python then
  rounds to the nearest binary64 number; \<open>PyInf\<close> (with its sign) and \<open>PyNaN\<close> are the values
  of the words \<open>inf\<close>, \<open>infinity\<close> and \<open>nan\<close>.
\<close>

datatype number = PyInt int | PyFloat rat | PyInf bool | PyNaN


section \<open>The built-in conversions \<open>int\<close> and \<open>float\<close>\<close>

definition digit_val :: "char \<Rightarrow> nat" where
  "digit_val c = of_char c - 48"

definition dec_val :: "string \<Rightarrow> nat" where
  "dec_val ds = foldl (\<lambda>n c. 10 * n + digit_val c) 0 ds"

text \<open>
  \<open>digitpart\<close> reads the longest prefix of the form digit, then digits each optionally
  preceded by one underscore; it returns the digits read and the rest of the text.
\<close>

fun digitpart :: "string \<Rightarrow> string \<times> string" where
  "digitpart [] = ([], [])"
| "digitpart (c # cs) =
     (if isdecimal c then
        (case cs of
           u # d # ds \<Rightarrow>
             if u = CHR ''_'' \<and> isdecimal d
             then (case digitpart (d # ds) of (xs, r) \<Rightarrow> (c # xs, r))
             else (case digitpart cs of (xs, r) \<Rightarrow> (c # xs, r))
         | _ \<Rightarrow> (case digitpart cs of (xs, r) \<Rightarrow> (c # xs, r)))
      else ([], c # cs))"

fun take_sign :: "string \<Rightarrow> bool \<times> string" where
  "take_sign [] = (False, [])"
| "take_sign (c # cs) =
     (if c = CHR ''-'' then (True, cs) else if c = CHR ''+'' then (False, cs) else (False, c # cs))"

text \<open>
  CPython's limit on the number of digits of a decimal string that \<open>int\<close> converts
  (\<open>sys.int_info.default_max_str_digits\<close>).
\<close>

definition int_max_str_digits :: nat where
  "int_max_str_digits = 4300"

definition py_int :: "string \<Rightarrow> error + int" where
  "py_int s =
     (case take_sign (strip s) of (neg, body) \<Rightarrow>
        (case digitpart body of (ds, rest) \<Rightarrow>
           if ds = [] \<or> rest \<noteq> [] then Inl (ValueError ''invalid literal for int() with base 10'')
           else if int_max_str_digits < length ds
             then Inl (ValueError ''Exceeds the limit for integer string conversion'')
           else Inr (if neg then - int (dec_val ds) else int (dec_val ds))))"

text \<open>The fraction after a decimal point, when there is one.\<close>

fun take_fraction :: "string \<Rightarrow> string \<times> string" where
  "take_fraction [] = ([], [])"
| "take_fraction (c # cs) = (if c = CHR ''.'' then digitpart cs else ([], c # cs))"

text \<open>
  The exponent suffix: \<open>None\<close> when the suffix is malformed (an exponent marker without
  digits), otherwise the exponent (0 without a suffix) and the rest of the text.
\<close>

fun take_exponent :: "string \<Rightarrow> (int \<times> string) option" where
  "take_exponent [] = Some (0, [])"
| "take_exponent (c # cs) =
     (if c = CHR ''e'' \<or> c = CHR ''E'' then
        (case take_sign cs of (neg, body) \<Rightarrow>
           (case digitpart body of (ds, rest) \<Rightarrow>
              if ds = [] then None
              else Some (if neg then - int (dec_val ds) else int (dec_val ds), rest)))
      else Some (0, c # cs))"

definition scale10 :: "nat \<Rightarrow> int \<Rightarrow> rat" where
  "scale10 m e = (if 0 \<le> e then of_nat m * 10 ^ nat e else of_nat m / 10 ^ nat (- e))"

definition py_float :: "string \<Rightarrow> error + number" where
  "py_float s =
     (case take_sign (strip s) of (neg, body) \<Rightarrow>
        if lower body = ''inf'' \<or> lower body = ''infinity'' then Inr (PyInf neg)
        else if lower body = ''nan'' then Inr PyNaN
        else
          (case digitpart body of (ip, r1) \<Rightarrow>
             (case take_fraction r1 of (fp, r2) \<Rightarrow>
                if ip = [] \<and> fp = [] then Inl (ValueError ''could not convert string to float'')
                else
                  (case take_exponent r2 of
                     None \<Rightarrow> Inl (ValueError ''could not convert string to float'')
                   | Some (ex, r3) \<Rightarrow>
                       if r3 \<noteq> [] then Inl (ValueError ''could not convert string to float'')
                       else
                         (let q = scale10 (dec_val (ip @ fp)) (ex - int (length fp))
                          in Inr (PyFloat (if neg then - q else q)))))))"

section \<open>Regular expressions: the fragment of \<open>re\<close> the patterns use\<close>

text \<open>
  An atom matches one character: a literal or escaped character (\<open>Chr\<close>), the unescaped
  period (\<open>Dot\<close>, any character but a newline), \<open>\s\<close>, \<open>\d\<close>, or a character class
  \<open>[...]\<close> of members. A node is an atom or an atom under the greedy \<open>+\<close>; an item is a node
  or a capturing group of nodes.
\<close>

datatype member = MChr char | MDigit | MSpace

datatype atom = Chr char | Dot | Space | Digit | In "member list"

datatype node = One atom | Plus atom

datatype item = Nd node | Group "node list"

type_synonym regex = "item list"

fun member_ok :: "member \<Rightarrow> char \<Rightarrow> bool" where
  "member_ok (MChr x) c = (c = x)"
| "member_ok MDigit c = isdecimal c"
| "member_ok MSpace c = isspace c"

fun atom_ok :: "atom \<Rightarrow> char \<Rightarrow> bool" where
  "atom_ok (Chr x) c = (c = x)"
| "atom_ok Dot c = (c \<noteq> CHR 0x0A)"
| "atom_ok Space c = isspace c"
| "atom_ok Digit c = isdecimal c"
| "atom_ok (In ms) c = list_ex (\<lambda>m. member_ok m c) ms"

text \<open>
  The matcher is a backtracking one: each function returns the list of the texts that can
  remain after a match at the start of the input, in the order in which \<open>re\<close> tries them.
  The greedy \<open>+\<close> tries the longest repetition first.
\<close>

fun m_plus :: "atom \<Rightarrow> string \<Rightarrow> string list" where
  "m_plus a [] = []"
| "m_plus a (c # cs) = (if atom_ok a c then m_plus a cs @ [cs] else [])"

fun m_node :: "node \<Rightarrow> string \<Rightarrow> string list" where
  "m_node (One a) [] = []"
| "m_node (One a) (c # cs) = (if atom_ok a c then [cs] else [])"
| "m_node (Plus a) s = m_plus a s"

fun m_nodes :: "node list \<Rightarrow> string \<Rightarrow> string list" where
  "m_nodes [] s = [s]"
| "m_nodes (n # ns) s = concat (map (m_nodes ns) (m_node n s))"

text \<open>
  A match of a whole pattern at the start of the input: the text of group 1 (of the first
  group, when the pattern has one) and the text that remains.
\<close>

fun m_items :: "regex \<Rightarrow> string \<Rightarrow> (string option \<times> string) list" where
  "m_items [] s = [(None, s)]"
| "m_items (Nd n # its) s = concat (map (m_items its) (m_node n s))"
| "m_items (Group ns # its) s =
     concat (map (\<lambda>r. map (\<lambda>(g, r'). (Some (take (length s - length r) s), r')) (m_items its r))
                 (m_nodes ns s))"

text \<open>
  \<open>re.match\<close>: the first successful match at the start of the input, as its \<open>group(1)\<close>;
  \<open>re.search\<close>: the match at the leftmost position that has one. \<open>None\<close> is Python's
  \<open>None\<close>, returned without a match.
\<close>

definition re_match :: "regex \<Rightarrow> string \<Rightarrow> string option option" where
  "re_match p s = (case m_items p s of [] \<Rightarrow> None | (g, _) # _ \<Rightarrow> Some g)"

fun re_search :: "regex \<Rightarrow> string \<Rightarrow> string option option" where
  "re_search p [] = re_match p []"
| "re_search p (c # cs) =
     (case re_match p (c # cs) of None \<Rightarrow> re_search p cs | Some g \<Rightarrow> Some g)"

section \<open>\<open>parse_stats_output\<close>\<close>

definition lit :: "string \<Rightarrow> regex" where
  "lit s = map (\<lambda>c. Nd (One (Chr c))) s"

text \<open>The class \<open>[-\d\.eE\+]\<close> and the two pattern shapes of the source.\<close>

definition number_class :: atom where
  "number_class =
     In [MChr CHR ''-'', MDigit, MChr CHR ''.'', MChr CHR ''e'', MChr CHR ''E'', MChr CHR ''+'']"

text \<open>\<open>label\s+:\s+([-\d\.eE\+]+)\<close>, the label given as a regex.\<close>

definition float_pattern :: "regex \<Rightarrow> regex" where
  "float_pattern label =
     label @ [Nd (Plus Space), Nd (One (Chr CHR '':'')), Nd (Plus Space), Group [Plus number_class]]"

text \<open>\<open>label\s+:\s+(\d+)\<close>\<close>

definition count_pattern :: "regex \<Rightarrow> regex" where
  "count_pattern label =
     label @ [Nd (Plus Space), Nd (One (Chr CHR '':'')), Nd (Plus Space), Group [Plus Digit]]"

text \<open>
  The dictionary \<open>patterns\<close>, in the order of its declaration. The period of the last label
  is escaped in the source (\<open>No\.\<close>), hence the literal \<open>Chr CHR ''.''\<close>, written by \<open>lit\<close>.
\<close>

definition patterns :: "(string \<times> regex) list" where
  "patterns =
     [(''Pixel sum'', float_pattern (lit ''Pixel sum'')),
      (''Pixel mean'', float_pattern (lit ''Pixel mean'')),
      (''Standard deviation'', float_pattern (lit ''Standard deviation'')),
      (''Skewness'', float_pattern (lit ''Skewness'')),
      (''Kurtosis'', float_pattern (lit ''Kurtosis'')),
      (''Minimum pixel value'', float_pattern (lit ''Minimum pixel value'')),
      (''Maximum pixel value'', float_pattern (lit ''Maximum pixel value'')),
      (''Total number of pixels'', count_pattern (lit ''Total number of pixels'')),
      (''Number of pixels used'', count_pattern (lit ''Number of pixels used'')),
      (''No. of pixels excluded'', count_pattern (lit ''No. of pixels excluded''))]"

text \<open>
  The body of the loop after a match: \<open>match.group(1).strip()\<close>, then \<open>float\<close> when the value
  has a period or, lowered, an \<open>e\<close>, and \<open>int\<close> otherwise.
\<close>

definition convert :: "string option \<Rightarrow> error + number" where
  "convert g =
     (case g of
        None \<Rightarrow> Inl AttributeError
      | Some tok \<Rightarrow>
          (let v = strip tok
           in if CHR ''.'' \<in> set v \<or> CHR ''e'' \<in> set (lower v) then py_float v
              else (case py_int v of Inl e \<Rightarrow> Inl e | Inr n \<Rightarrow> Inr (PyInt n))))"

text \<open>
  A Python dictionary keeps its keys in the order of their first insertion, so it is an
  association list and \<open>d[k] = v\<close> is \<open>AList.update\<close>.
\<close>

type_synonym stats_dict = "(string \<times> number) list"

fun parse_loop :: "(string \<times> regex) list \<Rightarrow> string \<Rightarrow> stats_dict \<Rightarrow> error + stats_dict" where
  "parse_loop [] stats_output d = Inr d"
| "parse_loop ((key, pattern) # ps) stats_output d =
     (case re_search pattern stats_output of
        None \<Rightarrow> parse_loop ps stats_output d
      | Some g \<Rightarrow>
          (case convert g of
             Inl e \<Rightarrow> Inl e
           | Inr v \<Rightarrow> parse_loop ps stats_output (AList.update key v d)))"

definition parse_stats_output :: "string \<Rightarrow> error + stats_dict" where
  "parse_stats_output stats_output = parse_loop patterns stats_output []"

section \<open>\<open>calculate_mean_rms\<close>\<close>

text \<open>
  \<open>str.split(sep)\<close> with a separator: the pieces between the occurrences of \<open>sep\<close>, found
  from left to right without overlap. Python raises \<open>ValueError\<close> for an empty separator.
\<close>

function split_from :: "string \<Rightarrow> string \<Rightarrow> string \<Rightarrow> string list" where
  "split_from sep cur s =
     (if sep \<noteq> [] \<and> prefix sep s then rev cur # split_from sep [] (drop (length sep) s)
      else (case s of [] \<Rightarrow> [rev cur] | c # cs \<Rightarrow> split_from sep (c # cur) cs))"
  by pat_completeness auto
termination
  by (relation "measure (\<lambda>(sep, cur, s). length s)") (auto simp: prefix_def)

definition py_split :: "string \<Rightarrow> string \<Rightarrow> error + string list" where
  "py_split s sep = (if sep = [] then Inl (ValueError ''empty separator'') else Inr (split_from sep [] s))"

text \<open>\<open>os.path.join\<close> of a directory and a relative file name, on POSIX.\<close>

definition path_join :: "string \<Rightarrow> string \<Rightarrow> string" where
  "path_join a b = (if a = [] \<or> last a = CHR ''/'' then a @ b else a @ ''/'' @ b)"

text \<open>
  \<open>json.dump(stats_dict, f, indent=2)\<close>, following the encoder's generator for a dictionary:
  \<open>{}\<close> for the empty one; otherwise \<open>{\<close>, a newline and the indentation, the items joined by
  a comma, a newline and the indentation, then a newline and \<open>}\<close>. The keys of \<open>patterns\<close>
  hold no character that JSON escapes, so a key is written between double quotes as it is.
  An \<open>int\<close> is written in decimal. The text of a \<open>float\<close> is \<open>float.__repr__\<close>, the shortest
  decimal that reads back as the same binary64 number; it is a parameter of the model.
\<close>

function show_nat :: "nat \<Rightarrow> string" where
  "show_nat n = (if n < 10 then [char_of (48 + n)] else show_nat (n div 10) @ [char_of (48 + n mod 10)])"
  by pat_completeness auto
termination
  by (relation "measure id") auto

definition show_int :: "int \<Rightarrow> string" where
  "show_int i = (if i < 0 then CHR ''-'' # show_nat (nat (- i)) else show_nat (nat i))"

definition json_key :: "string \<Rightarrow> string" where
  "json_key k = [CHR 0x22] @ k @ [CHR 0x22]"

fun json_value :: "(number \<Rightarrow> string) \<Rightarrow> number \<Rightarrow> string" where
  "json_value float_repr (PyInt i) = show_int i"
| "json_value float_repr v = float_repr v"

fun json_items :: "(number \<Rightarrow> string) \<Rightarrow> string \<Rightarrow> bool \<Rightarrow> stats_dict \<Rightarrow> string" where
  "json_items float_repr item_separator first [] = []"
| "json_items float_repr item_separator first ((k, v) # kvs) =
     (if first then [] else item_separator) @ json_key k @ '': '' @ json_value float_repr v
       @ json_items float_repr item_separator False kvs"

definition json_dumps :: "(number \<Rightarrow> string) \<Rightarrow> nat \<Rightarrow> stats_dict \<Rightarrow> string" where
  "json_dumps float_repr indent d =
     (if d = [] then ''{}''
      else (let newline_indent = CHR 0x0A # replicate (indent * 1) CHR '' '';
                item_separator = '','' @ newline_indent
            in ''{'' @ newline_indent @ json_items float_repr item_separator True d
                 @ (CHR 0x0A # replicate (indent * 0) CHR '' '') @ ''}''))"

text \<open>
  The world \<open>calculate_mean_rms\<close> acts on after the shell command has run: the files it writes,
  by path, and the lines it prints.
\<close>

record world =
  files :: "string \<rightharpoonup> string"
  stdout :: "string list"

definition separator :: string where
  "separator = ''Pixel statistics for the NDF structure''"

definition stats_files :: "string \<Rightarrow> string list" where
  "stats_files output_path =
     [path_join output_path ''noisemap_stats.json'',
      path_join output_path ''1kms_error_stats.json'',
      path_join output_path ''1kms_noisemap_stats.json'']"

text \<open>
  The loop over \<open>zip(stats_outputs, stats_files)\<close>: parse, then open the file and dump, then
  print. An exception of \<open>parse_stats_output\<close> leaves the loop with the files written so far.
\<close>

fun write_stats :: "(number \<Rightarrow> string) \<Rightarrow> (string \<times> string) list \<Rightarrow> world \<Rightarrow> error option \<times> world" where
  "write_stats float_repr [] w = (None, w)"
| "write_stats float_repr ((stats_text, json_file) # rest) w =
     (case parse_stats_output stats_text of
        Inl e \<Rightarrow> (Some e, w)
      | Inr stats_dict \<Rightarrow>
          write_stats float_repr rest
            (w\<lparr>files := (files w)(json_file \<mapsto> json_dumps float_repr 2 stats_dict),
               stdout := stdout w @ [''Saved stats to '' @ json_file]\<rparr>))"

text \<open>
  \<open>calculate_mean_rms\<close> from the captured standard output \<open>full_output\<close> of the shell command
  (line 105 of the source) on: the result is the exception raised, if any, and the world
  after the call. The slice \<open>[1:4]\<close> is \<open>take 3 (drop 1 _)\<close>.
\<close>

definition calculate_mean_rms ::
  "(number \<Rightarrow> string) \<Rightarrow> string \<Rightarrow> string \<Rightarrow> world \<Rightarrow> error option \<times> world" where
  "calculate_mean_rms float_repr output_path full_output w =
     (let w1 = w\<lparr>stdout := stdout w @ [full_output]\<rparr>
      in case py_split full_output separator of
           Inl e \<Rightarrow> (Some e, w1)
         | Inr stats_blocks \<Rightarrow>
             if length stats_blocks < 4
             then (Some (ValueError ''Unexpected output format: not enough stats blocks found.''), w1)
             else (let stats_outputs = take 3 (drop 1 stats_blocks)
                   in write_stats float_repr (zip stats_outputs (stats_files output_path)) w1))"

subsection \<open>\<open>parse_stats_output\<close> as a call in a world\<close>



section \<open>The numeric token of the specification\<close>

text \<open>
  The specification's numeric value, in its words: a token composed of digits, an optional
  leading minus sign, an optional decimal point, and an optional exponent suffix (\<open>e\<close> or
  \<open>E\<close>, an optional sign, digits). The digits are those before the point (\<open>whole\<close>) and,
  when there is a point, those after it (\<open>fraction\<close>); an exponent suffix is its marker, its
  sign (\<open>None\<close>, or \<open>Some True\<close> for a minus and \<open>Some False\<close> for a plus) and its digits.
\<close>

record token =
  minus :: bool
  whole :: string
  fraction :: "string option"
  exponent :: "(char \<times> bool option \<times> string) option"

definition spec_token_ok :: "token \<Rightarrow> bool" where
  "spec_token_ok t =
     (list_all isdecimal (whole t)
      \<and> (case fraction t of
            None \<Rightarrow> whole t \<noteq> []
          | Some f \<Rightarrow> list_all isdecimal f \<and> (whole t \<noteq> [] \<or> f \<noteq> []))
      \<and> (case exponent t of
            None \<Rightarrow> True
          | Some (m, sg, ds) \<Rightarrow> (m = CHR ''e'' \<or> m = CHR ''E'') \<and> ds \<noteq> [] \<and> list_all isdecimal ds))"

definition spec_sign_text :: "bool option \<Rightarrow> string" where
  "spec_sign_text sg = (case sg of None \<Rightarrow> [] | Some True \<Rightarrow> ''-'' | Some False \<Rightarrow> ''+'')"

definition spec_token_text :: "token \<Rightarrow> string" where
  "spec_token_text t =
     (if minus t then ''-'' else [])
     @ whole t
     @ (case fraction t of None \<Rightarrow> [] | Some f \<Rightarrow> CHR ''.'' # f)
     @ (case exponent t of None \<Rightarrow> [] | Some (m, sg, ds) \<Rightarrow> m # spec_sign_text sg @ ds)"

text \<open>
  The value the token denotes, typed by its lexical form: floating-point when it has a
  decimal point or an exponent suffix, and integer otherwise.
\<close>

definition spec_exponent_value :: "(char \<times> bool option \<times> string) option \<Rightarrow> int" where
  "spec_exponent_value ex =
     (case ex of
        None \<Rightarrow> 0
      | Some (m, sg, ds) \<Rightarrow> (if sg = Some True then - int (dec_val ds) else int (dec_val ds)))"

definition spec_token_value :: "token \<Rightarrow> number" where
  "spec_token_value t =
     (if fraction t = None \<and> exponent t = None
      then PyInt (if minus t then - int (dec_val (whole t)) else int (dec_val (whole t)))
      else (let f = (case fraction t of None \<Rightarrow> [] | Some f \<Rightarrow> f);
                m = (of_nat (dec_val (whole t)) + of_nat (dec_val f) / 10 ^ length f) :: rat;
                q = m * 10 powi spec_exponent_value (exponent t)
            in PyFloat (if minus t then - q else q)))"

section \<open>Auxiliary definitions for the proofs\<close>

text \<open>
  What follows the label in every pattern, \<open>\s+:\s+(C+)\<close> for a class \<open>C\<close>, and what such a
  pattern captures, computed without backtracking.
\<close>

definition tail :: "atom \<Rightarrow> regex" where
  "tail C = [Nd (Plus Space), Nd (One (Chr CHR '':'')), Nd (Plus Space), Group [Plus C]]"

definition tail_capture :: "atom \<Rightarrow> string \<Rightarrow> string option" where
  "tail_capture C s =
     (if takeWhile isspace s = [] then None
      else (case dropWhile isspace s of
              [] \<Rightarrow> None
            | c # r \<Rightarrow>
                if c \<noteq> CHR '':'' \<or> takeWhile isspace r = [] then None
                else (let t = takeWhile (atom_ok C) (dropWhile isspace r)
                      in if t = [] then None else Some t)))"

definition match_at :: "string \<Rightarrow> atom \<Rightarrow> string \<Rightarrow> string option" where
  "match_at L C s = (if prefix L s then tail_capture C (drop (length L) s) else None)"

text \<open>The search of a label followed by such a tail, position by position.\<close>

fun scan :: "string \<Rightarrow> atom \<Rightarrow> string \<Rightarrow> string option" where
  "scan L C [] = match_at L C []"
| "scan L C (c # cs) = (case match_at L C (c # cs) of None \<Rightarrow> scan L C cs | Some t \<Rightarrow> Some t)"

text \<open>The entries the loop of \<open>parse_stats_output\<close> adds when no conversion fails.\<close>

fun collected :: "(string \<times> regex) list \<Rightarrow> string \<Rightarrow> stats_dict" where
  "collected [] s = []"
| "collected ((k, p) # ps) s =
     (case re_search p s of
        None \<Rightarrow> collected ps s
      | Some g \<Rightarrow> (case convert g of Inl e \<Rightarrow> collected ps s | Inr v \<Rightarrow> (k, v) # collected ps s))"

text \<open>The keys of \<open>patterns\<close> by the shape of their pattern, and the class a field captures.\<close>

definition float_fields :: "string list" where
  "float_fields =
     [''Pixel sum'', ''Pixel mean'', ''Standard deviation'', ''Skewness'', ''Kurtosis'',
      ''Minimum pixel value'', ''Maximum pixel value'']"

definition count_fields :: "string list" where
  "count_fields = [''Total number of pixels'', ''Number of pixels used'', ''No. of pixels excluded'']"

definition field_class :: "string \<Rightarrow> atom" where
  "field_class key = (if key \<in> set count_fields then Digit else number_class)"

text \<open>
  The shape of a dumped dictionary: one line for each item, indented by two spaces, and the
  lines joined by a separator.
\<close>

definition json_line :: "(number \<Rightarrow> string) \<Rightarrow> string \<times> number \<Rightarrow> string" where
  "json_line float_repr kv = ''  '' @ json_key (fst kv) @ '': '' @ json_value float_repr (snd kv)"

fun join_with :: "string \<Rightarrow> string list \<Rightarrow> string" where
  "join_with sep [] = []"
| "join_with sep [x] = x"
| "join_with sep (x # y # ys) = x @ sep @ join_with sep (y # ys)"

text \<open>The blob of the specification's end-to-end scenario.\<close>

definition scenario_blob :: string where
  "scenario_blob =
     ''noise\<newline>Pixel statistics for the NDF structure\<newline>Pixel sum        :   10.5\<newline>''
     @ ''Pixel statistics for the NDF structure\<newline>Pixel mean       :   2\<newline>''
     @ ''Pixel statistics for the NDF structure\<newline>Skewness         :   -0.3\<newline>''"

text \<open>The parts of the text of a token: after the sign, the fraction and the exponent suffix.\<close>

definition fraction_text :: "token \<Rightarrow> string" where
  "fraction_text t = (case fraction t of None \<Rightarrow> [] | Some f \<Rightarrow> CHR ''.'' # f)"

definition exponent_text :: "token \<Rightarrow> string" where
  "exponent_text t = (case exponent t of None \<Rightarrow> [] | Some (m, sg, ds) \<Rightarrow> m # spec_sign_text sg @ ds)"

definition fraction_digits :: "token \<Rightarrow> string" where
  "fraction_digits t = (case fraction t of None \<Rightarrow> [] | Some f \<Rightarrow> f)"

text \<open>An occurrence of a label in a text, by its position.\<close>

definition occurs_at :: "string \<Rightarrow> string \<Rightarrow> nat \<Rightarrow> bool" where
  "occurs_at L s i = prefix L (drop i s)"

text \<open>
  What the proofs need of the ten labels: the first character of a label is no whitespace,
  no colon and no character of the class of a value, it occurs in no label after the first
  place, and no label is a prefix of another.
\<close>

definition labels_apart :: bool where
  "labels_apart =
     list_all
       (\<lambda>K. K \<noteq> [] \<and> \<not> isspace (hd K) \<and> hd K \<notin> set '':-0123456789.eE+''
            \<and> list_all (\<lambda>L. hd K \<notin> set (tl L) \<and> (K = L \<or> (\<not> prefix K L \<and> \<not> prefix L K)))
                 (float_fields @ count_fields))
       (float_fields @ count_fields)"

section \<open>The matcher on the patterns of the source\<close>

lemma concat_map_plus:
  assumes "\<And>c cs. atom_ok a c \<Longrightarrow> f (c # cs) = []"
  shows "concat (map f (m_plus a s)) =
         (if takeWhile (atom_ok a) s = [] then [] else f (dropWhile (atom_ok a) s))"
proof (induction s)
  case Nil
  show ?case by simp
next
  case (Cons c cs)
  show ?case
  proof (cases "atom_ok a c")
    case False
    then show ?thesis by simp
  next
    case True
    show ?thesis
    proof (cases cs)
      case Nil
      with True show ?thesis by simp
    next
      case (Cons c' cs')
      with True Cons.IH assms show ?thesis by (cases "atom_ok a c'") auto
    qed
  qed
qed

lemma m_plus_Nil_iff: "m_plus a s = [] \<longleftrightarrow> takeWhile (atom_ok a) s = []"
  by (induction s) auto

lemma hd_m_plus: "m_plus a s \<noteq> [] \<Longrightarrow> hd (m_plus a s) = dropWhile (atom_ok a) s"
proof (induction s)
  case Nil
  then show ?case by simp
next
  case (Cons c cs)
  have tw: "takeWhile (atom_ok a) cs = [] \<Longrightarrow> dropWhile (atom_ok a) cs = cs"
    by (cases cs) (auto split: if_splits)
  from Cons.prems have ok: "atom_ok a c" by (auto split: if_splits)
  show ?case
  proof (cases "m_plus a cs = []")
    case True
    then have "dropWhile (atom_ok a) cs = cs" by (simp add: m_plus_Nil_iff tw)
    with True ok show ?thesis by simp
  next
    case False
    with Cons.IH ok show ?thesis by simp
  qed
qed

lemma m_items_lit:
  "m_items (lit L @ its) s = (if prefix L s then m_items its (drop (length L) s) else [])"
proof (induction L arbitrary: s)
  case Nil
  show ?case by (simp add: lit_def)
next
  case (Cons x L)
  have IH: "\<And>s. m_items (map (\<lambda>c. Nd (One (Chr c))) L @ its) s
     = (if prefix L s then m_items its (drop (length L) s) else [])"
    using Cons.IH by (simp add: lit_def)
  show ?case by (cases s) (auto simp: lit_def IH)
qed


lemma colon_not_space: "\<not> isspace CHR '':''"
  by (simp add: isspace_def)

lemma m_nodes_plus: "m_nodes [Plus C] r = m_plus C r"
proof -
  have "concat (map (m_nodes []) xs) = xs" for xs :: "string list"
    by (induction xs) auto
  then show ?thesis by simp
qed

lemma atom_ok_Space: "atom_ok Space = isspace"
  by (rule ext) simp

lemma take_dropWhile_len: "take (length r - length (dropWhile P r)) r = takeWhile P r"
proof -
  have "length (dropWhile P r) = length r - length (takeWhile P r)"
    by (metis length_drop dropWhile_eq_drop)
  moreover have "length (takeWhile P r) \<le> length r" by (rule length_takeWhile_le)
  ultimately have "length r - length (dropWhile P r) = length (takeWhile P r)" by simp
  then show ?thesis by (simp add: takeWhile_eq_take [symmetric])
qed

lemma m_items_group:
  "m_items [Group [Plus C]] r = map (\<lambda>r'. (Some (take (length r - length r') r), r')) (m_plus C r)"
proof -
  have "concat (map (\<lambda>x. [(f x, x)]) xs) = map (\<lambda>x. (f x, x)) xs"
    for f :: "string \<Rightarrow> string option" and xs
    by (induction xs) auto
  then show ?thesis by (simp add: m_nodes_plus del: m_nodes.simps)
qed


lemma m_items_tail:
  assumes C: "\<And>c. atom_ok C c \<Longrightarrow> \<not> isspace c"
  shows "re_match (tail C) s = map_option Some (tail_capture C s)"
proof -
  let ?G = "[Group [Plus C]]"
  let ?r2 = "Nd (Plus Space) # ?G"
  let ?r1 = "Nd (One (Chr CHR '':'')) # ?r2"
  have g: "m_items ?G (c # cs) = []" if "atom_ok Space c" for c cs
    using that C [of c] by (auto simp: m_items_group simp del: m_items.simps)
  have r2: "m_items ?r2 r =
      (if takeWhile isspace r = [] then [] else m_items ?G (dropWhile isspace r))" for r
    using concat_map_plus [of Space "m_items ?G" r, OF g]
    by (simp add: atom_ok_Space del: m_items.simps) (simp add: atom_ok_Space)
  have f: "m_items ?r1 (c # cs) = []" if "atom_ok Space c" for c cs
    using that colon_not_space by auto
  have r1: "m_items (tail C) s =
      (if takeWhile isspace s = [] then [] else m_items ?r1 (dropWhile isspace s))"
    using concat_map_plus [of Space "m_items ?r1" s, OF f]
    by (simp add: atom_ok_Space tail_def del: m_items.simps) (simp add: atom_ok_Space)
  have r1': "m_items ?r1 t = (case t of [] \<Rightarrow> [] | c # r \<Rightarrow>
       if c = CHR '':'' then m_items ?r2 r else [])" for t
    by (cases t) auto
  define first :: "(string option \<times> string) list \<Rightarrow> string option option"
    where "first xs = (case xs of [] \<Rightarrow> None | (g, _) # _ \<Rightarrow> Some g)" for xs
  have first_Nil: "first [] = None" by (simp add: first_def)
  have G: "first (m_items ?G r)
      = (let t = takeWhile (atom_ok C) r in if t = [] then None else Some (Some t))" for r
  proof (cases "m_plus C r")
    case Nil
    then show ?thesis
      by (simp add: first_def m_items_group m_plus_Nil_iff [symmetric] del: m_items.simps)
  next
    case (Cons x xs)
    then have ne: "m_plus C r \<noteq> []" by simp
    from hd_m_plus [OF ne] Cons have x: "x = dropWhile (atom_ok C) r" by simp
    from ne have "takeWhile (atom_ok C) r \<noteq> []" by (simp add: m_plus_Nil_iff)
    with Cons x show ?thesis
      by (simp add: first_def m_items_group take_dropWhile_len Let_def del: m_items.simps)
  qed
  have "first (m_items (tail C) s) = map_option Some (tail_capture C s)"
  proof (cases "takeWhile isspace s = []")
    case True
    then show ?thesis by (simp add: r1 tail_capture_def first_Nil)
  next
    case False
    show ?thesis
    proof (cases "dropWhile isspace s")
      case Nil
      from False show ?thesis unfolding r1 r1' tail_capture_def Nil
        by (simp add: first_Nil del: m_items.simps)
    next
      case (Cons c r)
      from False show ?thesis unfolding r1 r1' tail_capture_def Cons
        by (simp add: r2 G first_Nil Let_def del: m_items.simps)
    qed
  qed
  then show ?thesis by (simp add: re_match_def first_def)
qed

lemma number_class_not_space: "atom_ok number_class c \<Longrightarrow> \<not> isspace c"
  by (auto simp: number_class_def isspace_def isdecimal_def)

lemma digit_not_space: "atom_ok Digit c \<Longrightarrow> \<not> isspace c"
  by (auto simp: isspace_def isdecimal_def)

lemma float_pattern_tail: "float_pattern label = label @ tail number_class"
  by (simp add: float_pattern_def tail_def)

lemma count_pattern_tail: "count_pattern label = label @ tail Digit"
  by (simp add: count_pattern_def tail_def)

lemma re_match_field:
  assumes "\<And>c. atom_ok C c \<Longrightarrow> \<not> isspace c"
  shows "re_match (lit L @ tail C) s = map_option Some (match_at L C s)"
proof (cases "prefix L s")
  case True
  have "re_match (lit L @ tail C) s = re_match (tail C) (drop (length L) s)"
    using True by (simp add: re_match_def m_items_lit)
  with True assms show ?thesis by (simp add: m_items_tail match_at_def)
next
  case False
  then show ?thesis by (simp add: re_match_def m_items_lit match_at_def)
qed

lemma re_search_field:
  assumes "\<And>c. atom_ok C c \<Longrightarrow> \<not> isspace c"
  shows "re_search (lit L @ tail C) s = map_option Some (scan L C s)"
  by (induction s) (auto simp: re_match_field [OF assms] split: option.splits)

lemma takeWhile_all: "list_all P w \<Longrightarrow> takeWhile P (w @ x) = w @ takeWhile P x"
  by (induction w) auto

lemma dropWhile_all: "list_all P w \<Longrightarrow> dropWhile P (w @ x) = dropWhile P x"
  by (induction w) auto

lemma tail_capture_ws:
  assumes "w1 \<noteq> []" "list_all isspace w1" "w2 \<noteq> []" "list_all isspace w2"
  shows "tail_capture C (w1 @ CHR '':'' # w2 @ r) =
         (let t = takeWhile (atom_ok C) (dropWhile isspace r) in if t = [] then None else Some t)"
  using assms colon_not_space
  by (simp add: tail_capture_def takeWhile_all dropWhile_all)

lemma tail_capture_token:
  assumes ws: "w1 \<noteq> []" "list_all isspace w1" "w2 \<noteq> []" "list_all isspace w2"
    and C: "\<And>c. atom_ok C c \<Longrightarrow> \<not> isspace c"
    and t: "t \<noteq> []" "list_all (atom_ok C) t"
    and rest: "rest = [] \<or> \<not> atom_ok C (hd rest)"
  shows "tail_capture C (w1 @ CHR '':'' # w2 @ t @ rest) = Some t"
proof -
  from t C have "\<not> isspace (hd t)" by (cases t) auto
  with t have d: "dropWhile isspace (t @ rest) = t @ rest" by (cases t) auto
  from rest have "takeWhile (atom_ok C) rest = []" by (cases rest) auto
  with t have "takeWhile (atom_ok C) (t @ rest) = t" by (simp add: takeWhile_all)
  with d t show ?thesis by (simp add: tail_capture_ws [OF ws] Let_def)
qed

lemma tail_capture_SomeD:
  assumes "tail_capture C s = Some t"
  shows "\<exists>w1 w2 rest. s = w1 @ CHR '':'' # w2 @ t @ rest
           \<and> w1 \<noteq> [] \<and> list_all isspace w1 \<and> w2 \<noteq> [] \<and> list_all isspace w2
           \<and> t \<noteq> [] \<and> list_all (atom_ok C) t \<and> (rest = [] \<or> \<not> atom_ok C (hd rest))"
proof -
  let ?w1 = "takeWhile isspace s"
  from assms have w1: "?w1 \<noteq> []" by (auto simp: tail_capture_def split: if_splits)
  from assms w1 obtain r where r: "dropWhile isspace s = CHR '':'' # r"
    by (auto simp: tail_capture_def split: if_splits list.splits)
  let ?w2 = "takeWhile isspace r"
  let ?u = "dropWhile isspace r"
  from assms w1 r have w2: "?w2 \<noteq> []" and t: "t = takeWhile (atom_ok C) ?u" "t \<noteq> []"
    by (auto simp: tail_capture_def Let_def split: if_splits)
  let ?rest = "dropWhile (atom_ok C) ?u"
  have "s = ?w1 @ dropWhile isspace s" by simp
  also have "\<dots> = ?w1 @ CHR '':'' # ?w2 @ ?u" by (simp add: r)
  also have "?u = t @ ?rest" by (simp add: t)
  finally have s: "s = ?w1 @ CHR '':'' # ?w2 @ t @ ?rest" .
  have a1: "list_all isspace ?w1" and a2: "list_all isspace ?w2" and a3: "list_all (atom_ok C) t"
    by (auto simp: list_all_iff t dest: set_takeWhileD)
  have a4: "?rest = [] \<or> \<not> atom_ok C (hd ?rest)"
    by (metis hd_dropWhile)
  from s w1 w2 t(2) a1 a2 a3 a4 show ?thesis by blast
qed

lemma scan_SomeD:
  "scan L C s = Some t \<Longrightarrow> \<exists>pre post. s = pre @ post \<and> match_at L C post = Some t"
proof (induction s)
  case Nil
  then show ?case by auto
next
  case (Cons c cs)
  show ?case
  proof (cases "match_at L C (c # cs)")
    case None
    with Cons obtain pre post where "cs = pre @ post" "match_at L C post = Some t" by auto
    then have "c # cs = (c # pre) @ post \<and> match_at L C post = Some t" by simp
    then show ?thesis by blast
  next
    case (Some u)
    with Cons.prems have "c # cs = [] @ (c # cs) \<and> match_at L C (c # cs) = Some t" by simp
    then show ?thesis by blast
  qed
qed

lemma match_at_prefix: "match_at L C s = Some t \<Longrightarrow> prefix L s"
  by (auto simp: match_at_def split: if_splits)

lemma scan_None_no_label: "\<not> sublist L s \<Longrightarrow> scan L C s = None"
proof (rule ccontr)
  assume n: "\<not> sublist L s" and "scan L C s \<noteq> None"
  then obtain t where "scan L C s = Some t" by auto
  from scan_SomeD [OF this] obtain pre post where s: "s = pre @ post" and "match_at L C post = Some t"
    by blast
  then have "prefix L post" by (simp add: match_at_prefix)
  then obtain z where "post = L @ z" by (auto simp: prefix_def)
  with s have "sublist L s" by (auto simp: sublist_def)
  with n show False by simp
qed

lemma scan_skip:
  "(\<forall>i<length pre. \<not> prefix L (drop i (pre @ post))) \<Longrightarrow> scan L C (pre @ post) = scan L C post"
proof (induction pre)
  case Nil
  show ?case by simp
next
  case (Cons c pre)
  from Cons.prems have "\<not> prefix L (drop 0 ((c # pre) @ post))" by blast
  then have m: "match_at L C (c # pre @ post) = None" by (simp add: match_at_def)
  have "\<forall>i<length pre. \<not> prefix L (drop i (pre @ post))"
  proof (intro allI impI)
    fix i assume "i < length pre"
    then have "Suc i < length (c # pre)" by simp
    with Cons.prems have "\<not> prefix L (drop (Suc i) ((c # pre) @ post))" by blast
    then show "\<not> prefix L (drop i (pre @ post))" by simp
  qed
  with Cons.IH m show ?case by simp
qed

lemma update_fresh: "k \<notin> fst ` set d \<Longrightarrow> AList.update k v d = d @ [(k, v)]"
  by (induction d) auto

lemma collected_Cons_cases:
  "collected ((k, p) # ps) s = collected ps s
   \<or> (\<exists>g v. re_search p s = Some g \<and> convert g = Inr v
         \<and> collected ((k, p) # ps) s = (k, v) # collected ps s)"
  by (simp split: option.splits sum.splits)

lemma keys_collected_subset: "fst ` set (collected ps s) \<subseteq> fst ` set ps"
proof (induction ps)
  case Nil
  show ?case by simp
next
  case (Cons kp ps)
  show ?case
  proof (cases kp)
    case (Pair k p)
    from collected_Cons_cases [of k p ps s] Cons show ?thesis unfolding Pair
      by (elim disjE exE conjE) auto
  qed
qed

lemma parse_loop_Inr:
  "parse_loop ps s d = Inr d' \<Longrightarrow> distinct (map fst ps) \<Longrightarrow> fst ` set d \<inter> fst ` set ps = {}
     \<Longrightarrow> d' = d @ collected ps s"
proof (induction ps s d rule: parse_loop.induct)
  case (1 s d)
  then show ?case by simp
next
  case (2 key pattern ps s d)
  show ?case
  proof (cases "re_search pattern s")
    case None
    from "2.prems" None have a: "parse_loop ps s d = Inr d'" by simp
    from "2.prems" have b: "distinct (map fst ps)" by simp
    from "2.prems" have c: "fst ` set d \<inter> fst ` set ps = {}" by auto
    from "2.IH"(1) [OF None a b c] None show ?thesis by simp
  next
    case (Some g)
    with "2.prems" obtain v where v: "convert g = Inr v"
      by (cases "convert g") auto
    from "2.prems" have fresh: "key \<notin> fst ` set d" by auto
    then have u: "AList.update key v d = d @ [(key, v)]" by (rule update_fresh)
    from "2.prems" Some v have a: "parse_loop ps s (AList.update key v d) = Inr d'" by simp
    from "2.prems" have b: "distinct (map fst ps)" by simp
    from "2.prems" have c: "fst ` set (AList.update key v d) \<inter> fst ` set ps = {}"
      unfolding u by auto
    from "2.IH"(2) [OF Some v a b c] Some v u show ?thesis by simp
  qed
qed

lemma parse_loop_Inl:
  "parse_loop ps s d = Inl e \<Longrightarrow>
     \<exists>k p g. (k, p) \<in> set ps \<and> re_search p s = Some g \<and> convert g = Inl e"
proof (induction ps s d rule: parse_loop.induct)
  case (1 s d)
  then show ?case by simp
next
  case (2 key pattern ps s d)
  show ?case
  proof (cases "re_search pattern s")
    case None
    with "2.prems" have "parse_loop ps s d = Inl e" by simp
    from "2.IH"(1) [OF None this] obtain k p g
      where "(k, p) \<in> set ps" "re_search p s = Some g" "convert g = Inl e" by blast
    then have "(k, p) \<in> set ((key, pattern) # ps) \<and> re_search p s = Some g \<and> convert g = Inl e"
      by simp
    then show ?thesis by blast
  next
    case (Some g)
    show ?thesis
    proof (cases "convert g")
      case (Inl e')
      with Some "2.prems" have "e' = e" by simp
      with Some Inl have "(key, pattern) \<in> set ((key, pattern) # ps)
          \<and> re_search pattern s = Some g \<and> convert g = Inl e" by simp
      then show ?thesis by blast
    next
      case (Inr v)
      with Some "2.prems" have "parse_loop ps s (AList.update key v d) = Inl e" by simp
      from "2.IH"(2) [OF Some Inr this] obtain k p g'
        where "(k, p) \<in> set ps" "re_search p s = Some g'" "convert g' = Inl e" by blast
      then have "(k, p) \<in> set ((key, pattern) # ps) \<and> re_search p s = Some g'
          \<and> convert g' = Inl e" by simp
      then show ?thesis by blast
    qed
  qed
qed

lemma parse_loop_total:
  "(\<And>k p g. (k, p) \<in> set ps \<Longrightarrow> re_search p s = Some g \<Longrightarrow> \<exists>v. convert g = Inr v)
     \<Longrightarrow> \<exists>d'. parse_loop ps s d = Inr d'"
proof (induction ps s d rule: parse_loop.induct)
  case (1 s d)
  show ?case by simp
next
  case (2 key pattern ps s d)
  have rest: "\<exists>v. convert g = Inr v" if "(k, p) \<in> set ps" "re_search p s = Some g" for k p g
    using "2.prems" [of k p g] that by simp
  show ?case
  proof (cases "re_search pattern s")
    case None
    have "\<exists>d'. parse_loop ps s d = Inr d'"
      using "2.IH"(1) [OF None] rest by blast
    with None show ?thesis by simp
  next
    case (Some g)
    with "2.prems" [of key pattern g] obtain v where v: "convert g = Inr v" by auto
    have "\<exists>d'. parse_loop ps s (AList.update key v d) = Inr d'"
      using "2.IH"(2) [OF Some v] rest by blast
    with Some v show ?thesis by simp
  qed
qed

lemma map_of_collected:
  "distinct (map fst ps) \<Longrightarrow> (k, p) \<in> set ps \<Longrightarrow>
     map_of (collected ps s) k =
       (case re_search p s of
          None \<Rightarrow> None
        | Some g \<Rightarrow> (case convert g of Inl e \<Rightarrow> None | Inr v \<Rightarrow> Some v))"
proof (induction ps)
  case Nil
  then show ?case by simp
next
  case (Cons kp ps)
  show ?case
  proof (cases kp)
    case (Pair k' p')
    note prems = Cons.prems [unfolded Pair]
    show ?thesis
    proof (cases "k = k'")
      case True
      from True prems have nk: "k \<notin> fst ` set ps" by simp
      with True prems have p: "p = p'" by (auto simp: image_iff)
      from nk keys_collected_subset [of ps s] have "map_of (collected ps s) k = None"
        by (auto simp: map_of_eq_None_iff)
      with True p show ?thesis unfolding Pair by (simp split: option.splits sum.splits)
    next
      case False
      with prems have "(k, p) \<in> set ps" "distinct (map fst ps)" by auto
      with Cons.IH have "map_of (collected ps s) k =
         (case re_search p s of
            None \<Rightarrow> None
          | Some g \<Rightarrow> (case convert g of Inl e \<Rightarrow> None | Inr v \<Rightarrow> Some v))" by simp
      with False show ?thesis unfolding Pair by (simp split: option.splits sum.splits)
    qed
  qed
qed

lemma collected_keys_subseq: "subseq (map fst (collected ps s)) (map fst ps)"
proof (induction ps)
  case Nil
  show ?case by simp
next
  case (Cons kp ps)
  show ?case
  proof (cases kp)
    case (Pair k p)
    from collected_Cons_cases [of k p ps s] Cons show ?thesis unfolding Pair
      by (elim disjE exE conjE) auto
  qed
qed

lemma distinct_patterns: "distinct (map fst patterns)"
  by (simp add: patterns_def)

lemma parse_stats_output_Inr:
  "parse_stats_output s = Inr d \<Longrightarrow> d = collected patterns s"
  using parse_loop_Inr [of patterns s "[]" d] distinct_patterns
  by (simp add: parse_stats_output_def)

lemma lower_char_e: "lower_char c = CHR ''e'' \<longleftrightarrow> c = CHR ''e'' \<or> c = CHR ''E''"
proof
  assume l: "lower_char c = CHR ''e''"
  let ?n = "of_char c :: nat"
  show "c = CHR ''e'' \<or> c = CHR ''E''"
  proof (cases "(65 \<le> ?n \<and> ?n \<le> 90) \<or> (192 \<le> ?n \<and> ?n \<le> 222 \<and> ?n \<noteq> 215)")
    case True
    with l have "char_of (?n + 32) = CHR ''e''" by (simp add: lower_char_def Let_def)
    then have "(of_char (char_of (?n + 32) :: char) :: nat) = of_char CHR ''e''" by simp
    then have "(?n + 32) mod 256 = 101" by simp
    moreover from True have "?n + 32 < 256" by auto
    ultimately have "?n = 69" by simp
    then have "(of_char c :: nat) = of_char CHR ''E''" by simp
    then have "c = CHR ''E''" by (simp only: of_char_eq_iff)
    then show ?thesis by simp
  next
    case False
    with l show ?thesis by (simp add: lower_char_def Let_def)
  qed
next
  assume "c = CHR ''e'' \<or> c = CHR ''E''"
  moreover have "lower_char CHR ''E'' = CHR ''e''" by code_simp
  moreover have "lower_char CHR ''e'' = CHR ''e''" by (simp add: lower_char_def)
  ultimately show "lower_char c = CHR ''e''" by auto
qed

lemma e_in_lower: "CHR ''e'' \<in> set (lower v) \<longleftrightarrow> CHR ''e'' \<in> set v \<or> CHR ''E'' \<in> set v"
proof -
  have "CHR ''e'' \<in> set (lower v) \<longleftrightarrow> (\<exists>x\<in>set v. lower_char x = CHR ''e'')"
    unfolding lower_def set_map image_iff by (rule bex_cong [OF refl]) auto
  also have "\<dots> \<longleftrightarrow> (\<exists>x\<in>set v. x = CHR ''e'' \<or> x = CHR ''E'')"
    by (simp add: lower_char_e)
  also have "\<dots> \<longleftrightarrow> CHR ''e'' \<in> set v \<or> CHR ''E'' \<in> set v" by auto
  finally show ?thesis .
qed

lemma dropWhile_hd: "xs = [] \<or> \<not> P (hd xs) \<Longrightarrow> dropWhile P xs = xs"
  by (cases xs) auto

lemma strip_id:
  assumes "s = [] \<or> (\<not> isspace (hd s) \<and> \<not> isspace (last s))"
  shows "strip s = s"
proof (cases s)
  case Nil
  then show ?thesis by (simp add: strip_def)
next
  case (Cons c cs)
  with assms have h: "\<not> isspace c" and l: "\<not> isspace (last s)" by auto
  from h Cons have a: "dropWhile isspace s = s" by simp
  from Cons have "hd (rev s) = last s" by (simp add: hd_rev)
  with l have "dropWhile isspace (rev s) = rev s" by (simp add: dropWhile_hd)
  with a show ?thesis by (simp add: strip_def)
qed


lemma digitpart_digits:
  "list_all isdecimal ds \<Longrightarrow> r = [] \<or> (\<not> isdecimal (hd r) \<and> hd r \<noteq> CHR ''_'')
     \<Longrightarrow> digitpart (ds @ r) = (ds, r)"
proof (induction ds)
  case Nil
  then show ?case by (cases r) auto
next
  case (Cons c ds)
  then have IH: "digitpart (ds @ r) = (ds, r)" and c: "isdecimal c" by auto
  have us: "\<not> isdecimal CHR ''_''" by (simp add: isdecimal_def)
  show ?case
  proof (cases "ds @ r")
    case Nil
    with c IH show ?thesis by simp
  next
    case (Cons u rest)
    have u: "u \<noteq> CHR ''_''"
    proof (cases ds)
      case Nil
      with Cons Cons.prems \<open>ds @ r = u # rest\<close> show ?thesis by auto
    next
      case (Cons d ds')
      with \<open>ds @ r = u # rest\<close> have "u = d" by simp
      with Cons Cons.prems us show ?thesis by auto
    qed
    from c u IH Cons show ?thesis by (cases rest) auto
  qed
qed

lemma digit_chars:
  assumes "isdecimal c"
  shows "\<not> isspace c" "c \<noteq> CHR ''.''" "c \<noteq> CHR ''e''" "c \<noteq> CHR ''E''" "c \<noteq> CHR ''-''"
    "c \<noteq> CHR ''+''" "c \<noteq> CHR ''_''" "lower_char c = c"
  using assms by (auto simp: isdecimal_def isspace_def lower_char_def)

lemma digits_hd_last:
  assumes "t \<noteq> []" "list_all isdecimal t"
  shows "isdecimal (hd t)" "isdecimal (last t)"
  using assms by (auto simp: list_all_iff)

lemma py_int_digits:
  assumes "t \<noteq> []" "list_all isdecimal t"
  shows "py_int t = (if int_max_str_digits < length t
                     then Inl (ValueError ''Exceeds the limit for integer string conversion'')
                     else Inr (int (dec_val t)))"
proof -
  from digits_hd_last [OF assms] have h: "isdecimal (hd t)" and l: "isdecimal (last t)" .
  have s: "strip t = t" by (rule strip_id) (use h l digit_chars(1) in auto)
  from assms h have ts: "take_sign t = (False, t)"
    by (cases t) (auto dest: digit_chars)
  from digitpart_digits [of t "[]"] assms have dp: "digitpart t = (t, [])" by simp
  from assms show ?thesis by (simp add: py_int_def s ts dp)
qed

lemma convert_digits:
  assumes "t \<noteq> []" "list_all isdecimal t"
  shows "convert (Some t) = (if int_max_str_digits < length t
                     then Inl (ValueError ''Exceeds the limit for integer string conversion'')
                     else Inr (PyInt (int (dec_val t))))"
proof -
  from digits_hd_last [OF assms] have h: "isdecimal (hd t)" and l: "isdecimal (last t)" .
  have s: "strip t = t" by (rule strip_id) (use h l digit_chars(1) in auto)
  from assms have d: "isdecimal c" if "c \<in> set t" for c using that by (simp add: list_all_iff)
  have n1: "CHR ''.'' \<notin> set t" using d digit_chars(2) by auto
  have n2: "CHR ''e'' \<notin> set t" using d digit_chars(3) by auto
  have n3: "CHR ''E'' \<notin> set t" using d digit_chars(4) by auto
  have "convert (Some t) = (case py_int t of Inl e \<Rightarrow> Inl e | Inr n \<Rightarrow> Inr (PyInt n))"
    unfolding convert_def option.case Let_def s using n1 n2 n3 by (simp add: e_in_lower)
  then show ?thesis unfolding py_int_digits [OF assms] by simp
qed




lemma patterns_fields:
  "patterns = map (\<lambda>k. (k, float_pattern (lit k))) float_fields
            @ map (\<lambda>k. (k, count_pattern (lit k))) count_fields"
  by (simp add: patterns_def float_fields_def count_fields_def)

lemma float_count_disjoint: "key \<in> set float_fields \<Longrightarrow> key \<notin> set count_fields"
  by (auto simp: float_fields_def count_fields_def)

lemma patterns_mem:
  "(key, pat) \<in> set patterns \<longleftrightarrow>
     (key \<in> set float_fields \<and> pat = float_pattern (lit key))
     \<or> (key \<in> set count_fields \<and> pat = count_pattern (lit key))"
  unfolding patterns_fields by auto

lemma patterns_keys: "map fst patterns = float_fields @ count_fields"
  unfolding patterns_fields by (simp add: comp_def)

lemma field_class_not_space: "atom_ok (field_class key) c \<Longrightarrow> \<not> isspace c"
  using number_class_not_space digit_not_space by (auto simp: field_class_def split: if_splits)

lemma patterns_pattern:
  assumes "(key, pat) \<in> set patterns"
  shows "pat = lit key @ tail (field_class key)"
proof -
  from assms [unfolded patterns_mem] show ?thesis
  proof
    assume "key \<in> set float_fields \<and> pat = float_pattern (lit key)"
    then show ?thesis
      using float_count_disjoint [of key] by (simp add: float_pattern_tail field_class_def)
  next
    assume "key \<in> set count_fields \<and> pat = count_pattern (lit key)"
    then show ?thesis by (simp add: count_pattern_tail field_class_def)
  qed
qed

lemma patterns_search:
  assumes "(key, pat) \<in> set patterns"
  shows "re_search pat s = map_option Some (scan key (field_class key) s)"
  unfolding patterns_pattern [OF assms]
  by (rule re_search_field) (rule field_class_not_space)

lemma scan_Some_shape:
  assumes "scan L C s = Some t"
  shows "\<exists>pre w1 w2 rest. s = pre @ L @ w1 @ CHR '':'' # w2 @ t @ rest
           \<and> w1 \<noteq> [] \<and> list_all isspace w1 \<and> w2 \<noteq> [] \<and> list_all isspace w2
           \<and> t \<noteq> [] \<and> list_all (atom_ok C) t \<and> (rest = [] \<or> \<not> atom_ok C (hd rest))"
proof -
  from scan_SomeD [OF assms] obtain pre post
    where s: "s = pre @ post" and m: "match_at L C post = Some t" by blast
  from m have p: "prefix L post" by (rule match_at_prefix)
  then obtain z where z: "post = L @ z" by (auto simp: prefix_def)
  with m have "tail_capture C z = Some t" by (simp add: match_at_def)
  from tail_capture_SomeD [OF this] obtain w1 w2 rest where
    "z = w1 @ CHR '':'' # w2 @ t @ rest" "w1 \<noteq> []" "list_all isspace w1" "w2 \<noteq> []"
    "list_all isspace w2" "t \<noteq> []" "list_all (atom_ok C) t" "rest = [] \<or> \<not> atom_ok C (hd rest)"
    by blast
  with s z have "s = pre @ L @ w1 @ CHR '':'' # w2 @ t @ rest
           \<and> w1 \<noteq> [] \<and> list_all isspace w1 \<and> w2 \<noteq> [] \<and> list_all isspace w2
           \<and> t \<noteq> [] \<and> list_all (atom_ok C) t \<and> (rest = [] \<or> \<not> atom_ok C (hd rest))"
    by simp
  then show ?thesis by blast
qed

lemma parse_stats_output_lookup:
  assumes "parse_stats_output s = Inr d" and "(key, pat) \<in> set patterns"
  shows "map_of d key =
           (case scan key (field_class key) s of
              None \<Rightarrow> None
            | Some t \<Rightarrow> (case convert (Some t) of Inl e \<Rightarrow> None | Inr v \<Rightarrow> Some v))"
proof -
  from parse_stats_output_Inr [OF assms(1)] have d: "d = collected patterns s" .
  from map_of_collected [OF distinct_patterns assms(2), of s] show ?thesis
    unfolding d patterns_search [OF assms(2)] by (simp split: option.splits)
qed

lemma parse_stats_output_keys:
  assumes "parse_stats_output s = Inr d" and "map_of d key = Some v"
  shows "key \<in> set float_fields \<or> key \<in> set count_fields"
proof -
  from parse_stats_output_Inr [OF assms(1)] have d: "d = collected patterns s" .
  from assms(2) have "key \<in> fst ` set d" by (metis map_of_eq_None_iff option.distinct(1))
  with keys_collected_subset [of patterns s] d have "key \<in> set (map fst patterns)" by auto
  then show ?thesis by (simp add: patterns_keys)
qed

lemma parse_loop_Inr_all:
  "parse_loop ps s d = Inr d' \<Longrightarrow> (k, p) \<in> set ps \<Longrightarrow> re_search p s = Some g
     \<Longrightarrow> \<exists>v. convert g = Inr v"
proof (induction ps s d rule: parse_loop.induct)
  case (1 s d)
  then show ?case by simp
next
  case (2 key pattern ps s d)
  show ?case
  proof (cases "re_search pattern s")
    case None
    with "2.prems" have a: "parse_loop ps s d = Inr d'" and b: "(k, p) \<in> set ps" by auto
    from "2.IH"(1) [OF None a b "2.prems"(3)] show ?thesis .
  next
    case (Some g')
    with "2.prems" obtain v where v: "convert g' = Inr v" by (cases "convert g'") auto
    show ?thesis
    proof (cases "(k, p) = (key, pattern)")
      case True
      with Some "2.prems"(3) v show ?thesis by auto
    next
      case False
      with "2.prems" Some v have a: "parse_loop ps s (AList.update key v d) = Inr d'"
        and b: "(k, p) \<in> set ps" by auto
      from "2.IH"(2) [OF Some v a b "2.prems"(3)] show ?thesis .
    qed
  qed
qed

lemma convert_error_kind: "convert g = Inl e \<Longrightarrow> g \<noteq> None \<Longrightarrow> \<exists>msg. e = ValueError msg"
proof -
  assume c: "convert g = Inl e" and g: "g \<noteq> None"
  then obtain t where t: "g = Some t" by auto
  have i: "py_int x \<noteq> Inl AttributeError" for x
    by (simp add: py_int_def split: prod.split)
  have f: "py_float x \<noteq> Inl AttributeError" for x
    by (simp add: py_float_def Let_def split: prod.split option.split)
  have "convert (Some t) \<noteq> Inl AttributeError"
    using i [of "strip t"] f [of "strip t"]
    by (auto simp: convert_def Let_def split: sum.split)
  with c t show ?thesis by (cases e) auto
qed

lemma matched_converts:
  assumes "parse_stats_output s = Inr d" and "(key, pat) \<in> set patterns"
    and "re_search pat s = Some (Some tok)"
  shows "\<exists>v. convert (Some tok) = Inr v \<and> map_of d key = Some v"
proof -
  from parse_loop_Inr_all [OF assms(1) [unfolded parse_stats_output_def] assms(2,3)]
  obtain v where v: "convert (Some tok) = Inr v" by blast
  from assms(3) have "scan key (field_class key) s = Some tok"
    unfolding patterns_search [OF assms(2)] by auto
  with parse_stats_output_lookup [OF assms(1,2)] v have "map_of d key = Some v" by simp
  with v show ?thesis by blast
qed

lemma json_items_rest:
  "json_items fr ('','' @ CHR 0x0A # ''  '') False d
     = concat (map (\<lambda>kv. '','' @ [CHR 0x0A] @ json_line fr kv) d)"
  by (induction d) (auto simp: json_line_def)

lemma join_with_Cons:
  "join_with sep (x # xs) = x @ concat (map (\<lambda>y. sep @ y) xs)"
  by (induction xs arbitrary: x) auto

lemma json_dumps_lines:
  assumes "d \<noteq> []"
  shows "json_dumps fr 2 d
     = ''{'' @ [CHR 0x0A] @ join_with ('','' @ [CHR 0x0A]) (map (json_line fr) d) @ [CHR 0x0A] @ ''}''"
proof -
  from assms obtain kv d' where d: "d = kv # d'" by (cases d) auto
  obtain k v where kv: "kv = (k, v)" by (cases kv)
  have r: "replicate (2 * 1) CHR '' '' = ''  ''" by (simp add: numeral_2_eq_2)
  have "json_dumps fr 2 d = ''{'' @ CHR 0x0A # ''  '' @ json_key k @ '': '' @ json_value fr v
      @ json_items fr ('','' @ CHR 0x0A # ''  '') False d' @ [CHR 0x0A] @ ''}''"
    unfolding json_dumps_def Let_def r d kv by simp
  also have "\<dots> = ''{'' @ [CHR 0x0A] @ json_line fr kv
      @ concat (map (\<lambda>kv. '','' @ [CHR 0x0A] @ json_line fr kv) d') @ [CHR 0x0A] @ ''}''"
    unfolding json_items_rest by (simp add: json_line_def kv)
  also have "\<dots> = ''{'' @ [CHR 0x0A] @ join_with ('','' @ [CHR 0x0A]) (map (json_line fr) d)
      @ [CHR 0x0A] @ ''}''"
    unfolding d list.map join_with_Cons by (simp add: comp_def)
  finally show ?thesis .
qed

lemma collected_distinct: "distinct (map fst ps) \<Longrightarrow> distinct (map fst (collected ps s))"
proof (induction ps)
  case Nil
  show ?case by simp
next
  case (Cons kp ps)
  show ?case
  proof (cases kp)
    case (Pair k p)
    with Cons.prems have k: "k \<notin> fst ` set ps" and d: "distinct (map fst ps)" by auto
    from k keys_collected_subset [of ps s] have "k \<notin> fst ` set (collected ps s)" by auto
    with collected_Cons_cases [of k p ps s] Cons.IH [OF d] show ?thesis unfolding Pair
      by (elim disjE exE conjE) auto
  qed
qed

lemma slice_1_4:
  assumes "4 \<le> length xs"
  shows "take 3 (drop 1 xs) = [xs ! 1, xs ! 2, xs ! 3]"
proof -
  from assms obtain a b c d r where "xs = a # b # c # d # r"
    by (cases xs; cases "tl xs"; cases "tl (tl xs)"; cases "tl (tl (tl xs))") auto
  then show ?thesis by (simp add: numeral_3_eq_3)
qed

lemma path_join_inj: "path_join a b = path_join a c \<longleftrightarrow> b = c"
  by (simp add: path_join_def)

lemma stats_files_distinct: "distinct (stats_files output_path)"
  by (simp add: stats_files_def path_join_inj)

lemma calculate_mean_rms_loop:
  assumes "py_split full_output separator = Inr stats_blocks" and "4 \<le> length stats_blocks"
  shows "calculate_mean_rms float_repr output_path full_output w =
           write_stats float_repr
             [(stats_blocks ! 1, path_join output_path ''noisemap_stats.json''),
              (stats_blocks ! 2, path_join output_path ''1kms_error_stats.json''),
              (stats_blocks ! 3, path_join output_path ''1kms_noisemap_stats.json'')]
             (w\<lparr>stdout := stdout w @ [full_output]\<rparr>)"
proof -
  from assms(2) have l: "\<not> length stats_blocks < 4" by simp
  have z: "zip (take 3 (drop 1 stats_blocks)) (stats_files output_path) =
             [(stats_blocks ! 1, path_join output_path ''noisemap_stats.json''),
              (stats_blocks ! 2, path_join output_path ''1kms_error_stats.json''),
              (stats_blocks ! 3, path_join output_path ''1kms_noisemap_stats.json'')]"
    unfolding slice_1_4 [OF assms(2)] stats_files_def by simp
  show ?thesis
    unfolding calculate_mean_rms_def Let_def assms(1) sum.case z using l by (simp only: if_False)
qed

lemma dec_val_snoc: "dec_val (xs @ [c]) = 10 * dec_val xs + digit_val c"
  by (simp add: dec_val_def)

lemma dec_val_Nil: "dec_val [] = 0"
  by (simp add: dec_val_def)

lemma dec_val_append: "dec_val (a @ b) = dec_val a * 10 ^ length b + dec_val b"
proof (induction b rule: rev_induct)
  case Nil
  show ?case by (simp add: dec_val_Nil)
next
  case (snoc x xs)
  have "dec_val (a @ xs @ [x]) = 10 * dec_val (a @ xs) + digit_val x"
    using dec_val_snoc [of "a @ xs" x] by simp
  with snoc show ?case by (simp add: dec_val_snoc algebra_simps)
qed

lemma scale10_powi: "scale10 m e = of_nat m * 10 powi e"
proof (cases "0 \<le> e")
  case True
  then show ?thesis by (simp add: scale10_def power_int_def)
next
  case False
  have "(of_nat m :: rat) / 10 ^ nat (- e) = of_nat m * inverse 10 ^ nat (- e)"
    unfolding power_inverse by (rule divide_inverse)
  with False show ?thesis by (simp only: scale10_def power_int_def if_False)
qed

lemma scale10_split:
  "scale10 (dec_val (W @ F)) (E - int (length F))
     = (of_nat (dec_val W) + of_nat (dec_val F) / 10 ^ length F) * 10 powi E"
proof -
  have "(10::rat) powi (E - int (length F)) = 10 powi E / 10 powi (int (length F))"
    by (rule power_int_diff) simp
  then have p: "(10::rat) powi (E - int (length F)) = 10 powi E / 10 ^ length F"
    by (simp only: power_int_of_nat)
  have n: "(10::rat) ^ length F \<noteq> 0" by simp
  have "(of_nat (dec_val W * 10 ^ length F + dec_val F) :: rat)
      = (of_nat (dec_val W) + of_nat (dec_val F) / 10 ^ length F) * 10 ^ length F"
    using n by (simp add: field_simps)
  then show ?thesis
    unfolding scale10_powi dec_val_append p using n by simp
qed

lemma take_sign_digit: "ds \<noteq> [] \<Longrightarrow> list_all isdecimal ds \<Longrightarrow> take_sign ds = (False, ds)"
  by (cases ds) (auto dest: digit_chars)

lemma take_exponent_suffix:
  assumes "m = CHR ''e'' \<or> m = CHR ''E''" "ds \<noteq> []" "list_all isdecimal ds"
  shows "take_exponent (m # spec_sign_text sg @ ds)
           = Some (if sg = Some True then - int (dec_val ds) else int (dec_val ds), [])"
proof -
  from digitpart_digits [of ds "[]"] assms have dp: "digitpart ds = (ds, [])" by simp
  have ts: "take_sign (spec_sign_text sg @ ds) = (sg = Some True, ds)"
  proof (cases sg)
    case None
    with take_sign_digit [OF assms(2,3)] show ?thesis by (simp add: spec_sign_text_def)
  next
    case (Some b)
    then show ?thesis by (cases b) (simp_all add: spec_sign_text_def)
  qed
  from assms(1,2) show ?thesis by (auto simp: ts dp)
qed

lemma spec_token_text_parts:
  "spec_token_text t = (if minus t then ''-'' else []) @ whole t @ fraction_text t @ exponent_text t"
  by (simp add: spec_token_text_def fraction_text_def exponent_text_def)

lemma number_class_chars:
  "atom_ok number_class c \<longleftrightarrow>
     c = CHR ''-'' \<or> isdecimal c \<or> c = CHR ''.'' \<or> c = CHR ''e'' \<or> c = CHR ''E'' \<or> c = CHR ''+''"
  by (auto simp: number_class_def)

lemma digits_in_class: "list_all isdecimal ds \<Longrightarrow> list_all (atom_ok number_class) ds"
  by (simp add: list_all_iff number_class_chars)

lemma exponent_text_class:
  assumes "spec_token_ok t"
  shows "list_all (atom_ok number_class) (exponent_text t)"
proof (cases "exponent t")
  case None
  then show ?thesis by (simp add: exponent_text_def)
next
  case (Some x)
  obtain m sg ds where x: "x = (m, sg, ds)" by (cases x)
  from assms Some x have m: "m = CHR ''e'' \<or> m = CHR ''E''" and ds: "list_all isdecimal ds"
    by (simp_all add: spec_token_ok_def)
  have "list_all (atom_ok number_class) (spec_sign_text sg)"
    by (cases sg) (auto simp: spec_sign_text_def number_class_chars split: bool.splits)
  with m digits_in_class [OF ds] Some x show ?thesis
    by (auto simp: exponent_text_def number_class_chars)
qed

lemma fraction_text_class:
  assumes "spec_token_ok t"
  shows "list_all (atom_ok number_class) (fraction_text t)"
proof (cases "fraction t")
  case None
  then show ?thesis by (simp add: fraction_text_def)
next
  case (Some f)
  with assms have "list_all isdecimal f" by (simp add: spec_token_ok_def)
  from digits_in_class [OF this] Some show ?thesis
    by (simp add: fraction_text_def number_class_chars)
qed

lemma spec_token_class:
  assumes "spec_token_ok t"
  shows "list_all (atom_ok number_class) (spec_token_text t)" and "spec_token_text t \<noteq> []"
proof -
  from assms have w: "list_all isdecimal (whole t)" by (simp add: spec_token_ok_def)
  from digits_in_class [OF w] fraction_text_class [OF assms] exponent_text_class [OF assms]
  show "list_all (atom_ok number_class) (spec_token_text t)"
    by (simp add: spec_token_text_parts number_class_chars)
  from assms have "whole t \<noteq> [] \<or> fraction_text t \<noteq> []"
    by (auto simp: spec_token_ok_def fraction_text_def split: option.splits)
  then show "spec_token_text t \<noteq> []" by (auto simp: spec_token_text_parts)
qed

lemma class_run_strip:
  assumes "list_all (atom_ok C) t" and "\<And>c. atom_ok C c \<Longrightarrow> \<not> isspace c"
  shows "strip t = t"
proof (rule strip_id)
  show "t = [] \<or> (\<not> isspace (hd t) \<and> \<not> isspace (last t))"
  proof (cases "t = []")
    case True
    then show ?thesis by simp
  next
    case False
    then have "hd t \<in> set t" "last t \<in> set t" by simp_all
    with assms show ?thesis by (auto simp: list_all_iff)
  qed
qed

lemma exponent_text_hd:
  "spec_token_ok t \<Longrightarrow> exponent_text t = [] \<or> hd (exponent_text t) = CHR ''e'' \<or> hd (exponent_text t) = CHR ''E''"
  by (auto simp: exponent_text_def spec_token_ok_def split: option.splits)

lemma not_digit_chars:
  "\<not> isdecimal CHR ''.''" "\<not> isdecimal CHR ''e''" "\<not> isdecimal CHR ''E''" "\<not> isdecimal CHR ''_''"
  by (simp_all add: isdecimal_def)

lemma take_exponent_text:
  assumes "spec_token_ok t"
  shows "take_exponent (exponent_text t) = Some (spec_exponent_value (exponent t), [])"
proof (cases "exponent t")
  case None
  then show ?thesis by (simp add: exponent_text_def spec_exponent_value_def)
next
  case (Some x)
  obtain m sg ds where x: "x = (m, sg, ds)" by (cases x)
  from assms Some x have "m = CHR ''e'' \<or> m = CHR ''E''" "ds \<noteq> []" "list_all isdecimal ds"
    by (simp_all add: spec_token_ok_def)
  from take_exponent_suffix [OF this, of sg] Some x show ?thesis
    by (simp add: exponent_text_def spec_exponent_value_def)
qed

lemma take_fraction_text:
  assumes "spec_token_ok t"
  shows "take_fraction (fraction_text t @ exponent_text t) = (fraction_digits t, exponent_text t)"
proof -
  from exponent_text_hd [OF assms] not_digit_chars
  have e: "exponent_text t = [] \<or> (\<not> isdecimal (hd (exponent_text t)) \<and> hd (exponent_text t) \<noteq> CHR ''_'')"
    by auto
  show ?thesis
  proof (cases "fraction t")
    case None
    have "take_fraction (exponent_text t) = ([], exponent_text t)"
      using exponent_text_hd [OF assms] by (cases "exponent_text t") auto
    with None show ?thesis by (simp add: fraction_text_def fraction_digits_def)
  next
    case (Some f)
    with assms have "list_all isdecimal f" by (simp add: spec_token_ok_def)
    from digitpart_digits [OF this e] Some show ?thesis
      by (simp add: fraction_text_def fraction_digits_def)
  qed
qed

lemma digitpart_whole:
  assumes "spec_token_ok t"
  shows "digitpart (whole t @ fraction_text t @ exponent_text t)
           = (whole t, fraction_text t @ exponent_text t)"
proof -
  from assms have w: "list_all isdecimal (whole t)" by (simp add: spec_token_ok_def)
  let ?r = "fraction_text t @ exponent_text t"
  have "?r = [] \<or> (\<not> isdecimal (hd ?r) \<and> hd ?r \<noteq> CHR ''_'')"
  proof (cases "fraction t")
    case None
    with exponent_text_hd [OF assms] not_digit_chars show ?thesis
      by (auto simp: fraction_text_def)
  next
    case (Some f)
    with not_digit_chars show ?thesis by (simp add: fraction_text_def)
  qed
  from digitpart_digits [OF w this] show ?thesis .
qed

lemma body_hd:
  assumes "spec_token_ok t"
  shows "\<exists>c cs. whole t @ fraction_text t @ exponent_text t = c # cs \<and> (isdecimal c \<or> c = CHR ''.'')"
proof (cases "whole t")
  case Nil
  with assms obtain f where "fraction t = Some f"
    by (auto simp: spec_token_ok_def split: option.splits)
  with Nil show ?thesis by (simp add: fraction_text_def)
next
  case (Cons c cs)
  with assms have "isdecimal c" by (simp add: spec_token_ok_def)
  with Cons show ?thesis by simp
qed

lemma take_sign_text:
  assumes "spec_token_ok t"
  shows "take_sign (spec_token_text t) = (minus t, whole t @ fraction_text t @ exponent_text t)"
proof -
  from body_hd [OF assms] obtain c cs
    where b: "whole t @ fraction_text t @ exponent_text t = c # cs" and c: "isdecimal c \<or> c = CHR ''.''"
    by blast
  from c have "c \<noteq> CHR ''-''" "c \<noteq> CHR ''+''" using digit_chars(5,6) [of c] by auto
  then show ?thesis unfolding spec_token_text_parts b by simp
qed

lemma body_not_word:
  assumes "spec_token_ok t"
  shows "lower (whole t @ fraction_text t @ exponent_text t) \<noteq> ''inf''"
    "lower (whole t @ fraction_text t @ exponent_text t) \<noteq> ''infinity''"
    "lower (whole t @ fraction_text t @ exponent_text t) \<noteq> ''nan''"
proof -
  from body_hd [OF assms] obtain c cs
    where b: "whole t @ fraction_text t @ exponent_text t = c # cs" and c: "isdecimal c \<or> c = CHR ''.''"
    by blast
  have "lower_char c = c" using c digit_chars(8) [of c] by (auto simp: lower_char_def)
  moreover from c have "c \<noteq> CHR ''i''" "c \<noteq> CHR ''n''" by (auto simp: isdecimal_def)
  ultimately show "lower (whole t @ fraction_text t @ exponent_text t) \<noteq> ''inf''"
    "lower (whole t @ fraction_text t @ exponent_text t) \<noteq> ''infinity''"
    "lower (whole t @ fraction_text t @ exponent_text t) \<noteq> ''nan''"
    unfolding b by (simp_all add: lower_def)
qed

lemma spec_token_strip: "spec_token_ok t \<Longrightarrow> strip (spec_token_text t) = spec_token_text t"
  using class_run_strip [OF spec_token_class(1) number_class_not_space] by blast

lemma fraction_digits_ne:
  "spec_token_ok t \<Longrightarrow> \<not> (whole t = [] \<and> fraction_digits t = [])"
  by (auto simp: spec_token_ok_def fraction_digits_def split: option.splits)

lemma py_float_spec_token:
  assumes "spec_token_ok t"
  shows "py_float (spec_token_text t) =
           Inr (PyFloat (let q = (of_nat (dec_val (whole t))
                                   + of_nat (dec_val (fraction_digits t)) / 10 ^ length (fraction_digits t))
                                 * 10 powi spec_exponent_value (exponent t)
                         in if minus t then - q else q))"
proof -
  note s = spec_token_strip [OF assms]
  note ts = take_sign_text [OF assms]
  note nw = body_not_word [OF assms]
  note dp = digitpart_whole [OF assms]
  note tf = take_fraction_text [OF assms]
  note te = take_exponent_text [OF assms]
  note ne = fraction_digits_ne [OF assms]
  show ?thesis
    unfolding py_float_def s ts prod.case
    using nw ne by (simp add: dp tf te scale10_split Let_def)
qed

lemma py_int_spec_token:
  assumes "spec_token_ok t" and "fraction t = None" and "exponent t = None"
    and "length (whole t) \<le> int_max_str_digits"
  shows "py_int (spec_token_text t)
           = Inr (if minus t then - int (dec_val (whole t)) else int (dec_val (whole t)))"
proof -
  from assms(2,3) have f: "fraction_text t = []" "exponent_text t = []"
    by (simp_all add: fraction_text_def exponent_text_def)
  from assms(1,2) have w: "whole t \<noteq> []" "list_all isdecimal (whole t)"
    by (simp_all add: spec_token_ok_def)
  from digitpart_digits [of "whole t" "[]"] w have dp: "digitpart (whole t) = (whole t, [])" by simp
  note s = spec_token_strip [OF assms(1)]
  note ts = take_sign_text [OF assms(1), unfolded f append_Nil2]
  show ?thesis unfolding py_int_def s ts prod.case dp using w assms(4) by simp
qed

lemma spec_token_marks:
  assumes "spec_token_ok t"
  shows "CHR ''.'' \<in> set (spec_token_text t) \<or> CHR ''e'' \<in> set (spec_token_text t)
         \<or> CHR ''E'' \<in> set (spec_token_text t)
         \<longleftrightarrow> \<not> (fraction t = None \<and> exponent t = None)"
proof (cases "fraction t = None \<and> exponent t = None")
  case True
  then have f: "fraction_text t = []" "exponent_text t = []"
    by (simp_all add: fraction_text_def exponent_text_def)
  from assms have "\<forall>c\<in>set (whole t). isdecimal c" by (simp add: spec_token_ok_def list_all_iff)
  with not_digit_chars have "CHR ''.'' \<notin> set (whole t)" "CHR ''e'' \<notin> set (whole t)"
    "CHR ''E'' \<notin> set (whole t)" by auto
  with True show ?thesis unfolding spec_token_text_parts f by simp
next
  case False
  have "CHR ''.'' \<in> set (fraction_text t) \<or> CHR ''e'' \<in> set (exponent_text t)
      \<or> CHR ''E'' \<in> set (exponent_text t)"
  proof (cases "fraction t")
    case (Some f)
    then show ?thesis by (simp add: fraction_text_def)
  next
    case None
    with False obtain m sg ds where x: "exponent t = Some (m, sg, ds)" by auto
    with assms have "m = CHR ''e'' \<or> m = CHR ''E''" by (simp add: spec_token_ok_def)
    with x show ?thesis by (auto simp: exponent_text_def)
  qed
  with False show ?thesis unfolding spec_token_text_parts by auto
qed

lemma convert_spec_token:
  assumes "spec_token_ok t"
    and "fraction t = None \<and> exponent t = None \<longrightarrow> length (whole t) \<le> int_max_str_digits"
  shows "convert (Some (spec_token_text t)) = Inr (spec_token_value t)"
proof (cases "fraction t = None \<and> exponent t = None")
  case True
  with spec_token_marks [OF assms(1)]
  have n: "CHR ''.'' \<notin> set (spec_token_text t)" "CHR ''e'' \<notin> set (spec_token_text t)"
    "CHR ''E'' \<notin> set (spec_token_text t)" by auto
  from True assms(2) py_int_spec_token [OF assms(1)]
  have "py_int (spec_token_text t)
           = Inr (if minus t then - int (dec_val (whole t)) else int (dec_val (whole t)))" by simp
  with n True show ?thesis
    unfolding convert_def option.case Let_def spec_token_strip [OF assms(1)]
    by (simp add: e_in_lower spec_token_value_def)
next
  case False
  with spec_token_marks [OF assms(1)]
  have n: "CHR ''.'' \<in> set (spec_token_text t) \<or> CHR ''e'' \<in> set (lower (spec_token_text t))"
    by (auto simp: e_in_lower)
  have v: "spec_token_value t =
           PyFloat (let q = (of_nat (dec_val (whole t))
                                   + of_nat (dec_val (fraction_digits t)) / 10 ^ length (fraction_digits t))
                                 * 10 powi spec_exponent_value (exponent t)
                         in if minus t then - q else q)"
    using False by (simp add: spec_token_value_def fraction_digits_def Let_def)
  from n show ?thesis
    unfolding convert_def option.case Let_def spec_token_strip [OF assms(1)] v
    using py_float_spec_token [OF assms(1)] by (simp add: Let_def)
qed

lemma scan_unfold:
  "scan L C s = (case match_at L C s of
                   None \<Rightarrow> (case s of [] \<Rightarrow> None | c # cs \<Rightarrow> scan L C cs)
                 | Some t \<Rightarrow> Some t)"
  by (cases s) (auto split: option.splits)

lemma match_at_token:
  assumes "w1 \<noteq> []" "list_all isspace w1" "w2 \<noteq> []" "list_all isspace w2"
    and "\<And>c. atom_ok C c \<Longrightarrow> \<not> isspace c"
    and "t \<noteq> []" "list_all (atom_ok C) t"
    and "rest = [] \<or> \<not> atom_ok C (hd rest)"
  shows "match_at L C (L @ w1 @ CHR '':'' # w2 @ t @ rest) = Some t"
  using tail_capture_token [OF assms] by (simp add: match_at_def)

lemma scan_found:
  assumes "w1 \<noteq> []" "list_all isspace w1" "w2 \<noteq> []" "list_all isspace w2"
    and "\<And>c. atom_ok C c \<Longrightarrow> \<not> isspace c"
    and "t \<noteq> []" "list_all (atom_ok C) t"
    and "rest = [] \<or> \<not> atom_ok C (hd rest)"
    and "\<forall>i<length pre. \<not> occurs_at L (pre @ L @ w1 @ CHR '':'' # w2 @ t @ rest) i"
  shows "scan L C (pre @ L @ w1 @ CHR '':'' # w2 @ t @ rest) = Some t"
proof -
  let ?post = "L @ w1 @ CHR '':'' # w2 @ t @ rest"
  from assms(9) have "\<forall>i<length pre. \<not> prefix L (drop i (pre @ ?post))"
    by (simp add: occurs_at_def)
  from scan_skip [OF this] have "scan L C (pre @ ?post) = scan L C ?post" .
  also have "\<dots> = Some t"
    using match_at_token [OF assms(1-8), of L] by (subst scan_unfold) simp
  finally show ?thesis .
qed

lemma scan_None_hd:
  assumes "K \<noteq> []" and "\<not> prefix K s" and "hd K \<notin> set (tl s)"
  shows "scan K C s = None"
proof -
  have tail: "hd K \<notin> set m \<Longrightarrow> scan K C m = None" for m
  proof (induction m)
    case Nil
    with assms(1) show ?case by (simp add: match_at_def)
  next
    case (Cons c m)
    from Cons.prems assms(1) have "\<not> prefix K (c # m)"
      by (cases K) auto
    with Cons show ?case by (simp add: match_at_def)
  qed
  show ?thesis
  proof (cases s)
    case Nil
    with assms(1) show ?thesis by (simp add: match_at_def)
  next
    case (Cons c m)
    with assms(3) have "scan K C m = None" by (simp add: tail)
    with assms(2) Cons show ?thesis by (simp add: match_at_def)
  qed
qed

lemma scan_region:
  assumes "K \<noteq> []" and "hd K \<notin> set m"
  shows "scan K C (m @ r) = scan K C r"
proof (rule scan_skip, intro allI impI)
  fix i assume i: "i < length m"
  then have "drop i (m @ r) = m ! i # drop (Suc i) (m @ r)"
    by (simp add: Cons_nth_drop_Suc nth_append)
  moreover from i assms(2) have "m ! i \<noteq> hd K" by (metis nth_mem)
  ultimately show "\<not> prefix K (drop i (m @ r))" using assms(1) by (cases K) auto
qed

lemma number_class_set: "atom_ok number_class c \<longleftrightarrow> c \<in> set ''-0123456789.eE+''"
  by (auto simp: number_class_chars isdecimal_def)

lemma field_lists:
  "float_fields = [''Pixel sum'', ''Pixel mean'', ''Standard deviation'', ''Skewness'', ''Kurtosis'',
      ''Minimum pixel value'', ''Maximum pixel value'']"
  "count_fields = [''Total number of pixels'', ''Number of pixels used'', ''No. of pixels excluded'']"
  by (simp_all add: float_fields_def count_fields_def)

lemma float_field_found:
  assumes "parse_stats_output s = Inr d"
    and "key \<in> set float_fields"
    and "s = pre @ key @ w1 @ '':'' @ w2 @ spec_token_text tk @ rest"
    and "\<forall>i<length pre. \<not> occurs_at key s i"
    and "w1 \<noteq> []" "list_all isspace w1" "w2 \<noteq> []" "list_all isspace w2"
    and "spec_token_ok tk"
    and "fraction tk = None \<and> exponent tk = None \<longrightarrow> length (whole tk) \<le> int_max_str_digits"
    and "rest = [] \<or> hd rest \<notin> set ''-0123456789.eE+''"
  shows "map_of d key = Some (spec_token_value tk)"
proof -
  from assms(2) have p: "(key, float_pattern (lit key)) \<in> set patterns" by (simp add: patterns_mem)
  from assms(2) have c: "field_class key = number_class"
    using float_count_disjoint [of key] by (simp add: field_class_def)
  from assms(11) have r: "rest = [] \<or> \<not> atom_ok number_class (hd rest)"
    by (simp add: number_class_set)
  from assms(3,4) have f: "\<forall>i<length pre.
      \<not> occurs_at key (pre @ key @ w1 @ CHR '':'' # w2 @ spec_token_text tk @ rest) i" by simp
  from scan_found [OF assms(5-8) number_class_not_space spec_token_class(2,1) [OF assms(9)] r f]
  have "scan key number_class s = Some (spec_token_text tk)" by (simp add: assms(3))
  with parse_stats_output_lookup [OF assms(1) p] c convert_spec_token [OF assms(9,10)]
  show ?thesis by simp
qed

lemma count_field_found:
  assumes "parse_stats_output s = Inr d"
    and "key \<in> set count_fields"
    and "s = pre @ key @ w1 @ '':'' @ w2 @ ds @ rest"
    and "\<forall>i<length pre. \<not> occurs_at key s i"
    and "w1 \<noteq> []" "list_all isspace w1" "w2 \<noteq> []" "list_all isspace w2"
    and "ds \<noteq> []" "list_all isdecimal ds" "length ds \<le> int_max_str_digits"
    and "rest = [] \<or> hd rest \<notin> set ''0123456789''"
  shows "map_of d key = Some (PyInt (int (dec_val ds)))"
proof -
  from assms(2) have p: "(key, count_pattern (lit key)) \<in> set patterns" by (simp add: patterns_mem)
  from assms(2) have c: "field_class key = Digit" by (simp add: field_class_def)
  from assms(12) have r: "rest = [] \<or> \<not> atom_ok Digit (hd rest)" by (simp add: isdecimal_def)
  from assms(10) have a: "list_all (atom_ok Digit) ds" by (simp add: list_all_iff)
  from assms(3,4) have f: "\<forall>i<length pre.
      \<not> occurs_at key (pre @ key @ w1 @ CHR '':'' # w2 @ ds @ rest) i" by simp
  from scan_found [OF assms(5-8) digit_not_space assms(9) a r f]
  have "scan key Digit s = Some ds" by (simp add: assms(3))
  with parse_stats_output_lookup [OF assms(1) p] c convert_digits [OF assms(9,10)] assms(11)
  show ?thesis by simp
qed

lemma absent_label:
  assumes "(key, pat) \<in> set patterns" and "\<not> sublist key s"
  shows "re_search pat s = None"
  unfolding patterns_search [OF assms(1)] using scan_None_no_label [OF assms(2)] by simp

lemma first_occurrence_hd:
  assumes "L \<noteq> []" and "hd L \<notin> set pre"
  shows "\<forall>i<length pre. \<not> occurs_at L (pre @ r) i"
proof (intro allI impI)
  fix i assume i: "i < length pre"
  then have "drop i (pre @ r) = pre ! i # drop (Suc i) (pre @ r)"
    by (simp add: Cons_nth_drop_Suc nth_append)
  moreover from i assms(2) have "pre ! i \<noteq> hd L" by (metis nth_mem)
  ultimately show "\<not> occurs_at L (pre @ r) i"
    using assms(1) unfolding occurs_at_def by (cases L) auto
qed

lemma no_sublist_hd:
  assumes "L \<noteq> []" and "hd L \<notin> set s"
  shows "\<not> sublist L s"
proof
  assume "sublist L s"
  then have "set L \<subseteq> set s" by (rule set_mono_sublist)
  moreover from assms(1) have "hd L \<in> set L" by simp
  ultimately show False using assms(2) by auto
qed









lemma labels_apart: "labels_apart"
  by code_simp

lemma labels_facts:
  assumes "K \<in> set (float_fields @ count_fields)" and "L \<in> set (float_fields @ count_fields)"
  shows "K \<noteq> []" "\<not> isspace (hd K)" "hd K \<notin> set '':-0123456789.eE+''" "hd K \<notin> set (tl L)"
    "K = L \<or> (\<not> prefix K L \<and> \<not> prefix L K)"
  using labels_apart assms unfolding labels_apart_def list_all_iff by blast+

lemma parse_loop_cong:
  "(\<And>k p. (k, p) \<in> set ps \<Longrightarrow> re_search p s = re_search p s')
     \<Longrightarrow> parse_loop ps s d = parse_loop ps s' d"
proof (induction ps arbitrary: d)
  case Nil
  show ?case by simp
next
  case (Cons kp ps)
  show ?case
  proof (cases kp)
    case (Pair key pattern)
    have a: "re_search pattern s = re_search pattern s'"
      using Cons.prems [of key pattern] by (simp add: Pair)
    have c: "re_search p s = re_search p s'" if "(k, p) \<in> set ps" for k p
      using Cons.prems [of k p] that by simp
    have b: "parse_loop ps s d' = parse_loop ps s' d'" for d'
      using Cons.IH [of d'] c by blast
    show ?thesis unfolding Pair by (simp add: a b split: option.split sum.split)
  qed
qed

lemma match_at_other_label:
  assumes "\<not> prefix K L" and "\<not> prefix L K"
  shows "match_at K C (L @ x) = None"
proof -
  have "\<not> prefix K (L @ x)"
  proof
    assume "prefix K (L @ x)"
    then have "prefix K L \<or> (\<exists>us. K = L @ us \<and> prefix us x)" by (simp add: prefix_append)
    with assms show False by (auto simp: prefix_def)
  qed
  then show ?thesis by (simp add: match_at_def)
qed

lemma scan_line:
  assumes K: "K \<in> set (float_fields @ count_fields)" and L: "L \<in> set (float_fields @ count_fields)"
    and ws: "w1 \<noteq> []" "list_all isspace w1" "w2 \<noteq> []" "list_all isspace w2"
  shows "scan K C (L @ w1 @ CHR '':'' # w2 @ r) =
           (case (if K = L
                  then (let t = takeWhile (atom_ok C) (dropWhile isspace r)
                        in if t = [] then None else Some t)
                  else None) of
              None \<Rightarrow> scan K C r
            | Some t \<Rightarrow> Some t)"
proof -
  note f = labels_facts [OF K L]
  from labels_facts(1) [OF L L] obtain c0 L' where L': "L = c0 # L'" by (cases L) auto
  let ?m = "L' @ w1 @ CHR '':'' # w2"
  from f(2) ws(2,4) have "hd K \<notin> set w1" "hd K \<notin> set w2" by (auto simp: list_all_iff)
  moreover from f(3) have "hd K \<noteq> CHR '':''" by simp
  moreover from f(4) L' have "hd K \<notin> set L'" by simp
  ultimately have "hd K \<notin> set ?m" by simp
  from scan_region [OF f(1) this, of C r]
  have tl: "scan K C (L' @ w1 @ CHR '':'' # w2 @ r) = scan K C r" by simp
  have m: "match_at K C (L @ w1 @ CHR '':'' # w2 @ r) =
      (if K = L
       then (let t = takeWhile (atom_ok C) (dropWhile isspace r) in if t = [] then None else Some t)
       else None)"
  proof (cases "K = L")
    case True
    then show ?thesis by (simp add: match_at_def tail_capture_ws [OF ws])
  next
    case False
    with f(5) have "\<not> prefix K L" "\<not> prefix L K" by auto
    from match_at_other_label [OF this] False show ?thesis by simp
  qed
  have "scan K C (L @ w1 @ CHR '':'' # w2 @ r) =
      (case match_at K C (L @ w1 @ CHR '':'' # w2 @ r) of
         None \<Rightarrow> scan K C r | Some t \<Rightarrow> Some t)"
    unfolding L' using tl by (simp split: option.split)
  then show ?thesis unfolding m .
qed

lemma patterns_key_label: "(k, p) \<in> set patterns \<Longrightarrow> k \<in> set (float_fields @ count_fields)"
  by (auto simp: patterns_mem)

lemma parse_ws_invariant:
  assumes L: "L \<in> set (float_fields @ count_fields)"
    and w: "w1 \<noteq> []" "list_all isspace w1" "w2 \<noteq> []" "list_all isspace w2"
    and v: "v1 \<noteq> []" "list_all isspace v1" "v2 \<noteq> []" "list_all isspace v2"
  shows "parse_stats_output (L @ w1 @ CHR '':'' # w2 @ r)
       = parse_stats_output (L @ v1 @ CHR '':'' # v2 @ r)"
  unfolding parse_stats_output_def
proof (rule parse_loop_cong)
  fix k p assume m: "(k, p) \<in> set patterns"
  note K = patterns_key_label [OF m]
  show "re_search p (L @ w1 @ CHR '':'' # w2 @ r) = re_search p (L @ v1 @ CHR '':'' # v2 @ r)"
    unfolding patterns_search [OF m] scan_line [OF K L w] scan_line [OF K L v] ..
qed

lemma parse_loop_single:
  "distinct (map fst ps) \<Longrightarrow>
   (\<And>k p. (k, p) \<in> set ps \<Longrightarrow> re_search p s = (if k = L then Some g else None)) \<Longrightarrow>
   convert g = Inr v \<Longrightarrow>
   parse_loop ps s d = Inr (if L \<in> fst ` set ps then AList.update L v d else d)"
proof (induction ps arbitrary: d)
  case Nil
  show ?case by simp
next
  case (Cons kp ps)
  show ?case
  proof (cases kp)
    case (Pair key pattern)
    from Cons.prems(1) Pair have dist: "distinct (map fst ps)" and nk: "key \<notin> fst ` set ps"
      by auto
    have rest: "re_search p s = (if k = L then Some g else None)" if "(k, p) \<in> set ps" for k p
      using Cons.prems(2) [of k p] that by simp
    have here: "re_search pattern s = (if key = L then Some g else None)"
      using Cons.prems(2) [of key pattern] Pair by simp
    note IH = Cons.IH [OF dist rest Cons.prems(3)]
    show ?thesis
    proof (cases "key = L")
      case True
      with nk have "L \<notin> fst ` set ps" by simp
      with IH [of "AList.update L v d"] have "parse_loop ps s (AList.update L v d)
          = Inr (AList.update L v d)" by simp
      with True here Cons.prems(3) show ?thesis unfolding Pair by simp
    next
      case False
      with here IH [of d] show ?thesis unfolding Pair by simp
    qed
  qed
qed

lemma class_tokens_chars:
  assumes "list_all (atom_ok (field_class L)) tok"
  shows "set tok \<subseteq> set ''-0123456789.eE+''"
proof
  fix c assume "c \<in> set tok"
  with assms have a: "atom_ok (field_class L) c" by (simp add: list_all_iff)
  show "c \<in> set ''-0123456789.eE+''"
  proof (cases "L \<in> set count_fields")
    case True
    with a have "isdecimal c" by (simp add: field_class_def)
    then have "atom_ok number_class c" by (simp add: number_class_chars)
    then show ?thesis by (simp only: number_class_set)
  next
    case False
    with a show ?thesis by (simp add: field_class_def number_class_set)
  qed
qed

lemma parse_single_line:
  assumes L: "L \<in> set (float_fields @ count_fields)"
    and ws: "w1 \<noteq> []" "list_all isspace w1" "w2 \<noteq> []" "list_all isspace w2"
    and tok: "tok \<noteq> []" "list_all (atom_ok (field_class L)) tok"
    and v: "convert (Some tok) = Inr v"
  shows "parse_stats_output (L @ w1 @ CHR '':'' # w2 @ tok) = Inr [(L, v)]"
proof -
  let ?s = "L @ w1 @ CHR '':'' # w2 @ tok"
  have r: "re_search p ?s = (if k = L then Some (Some tok) else None)"
    if m: "(k, p) \<in> set patterns" for k p
  proof -
    note K = patterns_key_label [OF m]
    show ?thesis
    proof (cases "k = L")
      case True
      from tok have "\<not> isspace (hd tok)"
        using field_class_not_space [of L "hd tok"] by (cases tok) auto
      with tok(1) have d: "dropWhile isspace tok = tok" by (cases tok) auto
      from tok(2) have t: "takeWhile (atom_ok (field_class L)) tok = tok"
        by (simp add: list_all_iff)
      from tok(1) True show ?thesis
        unfolding patterns_search [OF m] scan_line [OF K L ws] by (simp add: d t Let_def)
    next
      case False
      note k = labels_facts(1) [OF K L]
      have h: "hd k \<notin> set tok"
      proof
        assume "hd k \<in> set tok"
        with class_tokens_chars [OF tok(2)] have "hd k \<in> set ''-0123456789.eE+''"
          by (rule subsetD)
        then have "hd k \<in> set '':-0123456789.eE+''" by simp
        with labels_facts(3) [OF K L] show False by (rule notE)
      qed
      from scan_region [OF k h, of "field_class k" "[]"] k
      have "scan k (field_class k) tok = None" by (simp add: match_at_def)
      with False show ?thesis
        unfolding patterns_search [OF m] scan_line [OF K L ws] by simp
    qed
  qed
  have "fst ` set patterns = set (map fst patterns)" by simp
  with L have "L \<in> fst ` set patterns" unfolding patterns_keys by simp
  with parse_loop_single [of patterns ?s L "Some tok" v "[]", OF distinct_patterns r v]
  show ?thesis by (simp add: parse_stats_output_def)
qed

lemma ten_labels:
  "key \<in> set [''Pixel sum'', ''Pixel mean'', ''Standard deviation'', ''Skewness'',
                ''Kurtosis'', ''Minimum pixel value'', ''Maximum pixel value'',
                ''Total number of pixels'', ''Number of pixels used'',
                ''No. of pixels excluded'']
   \<longleftrightarrow> key \<in> set (float_fields @ count_fields)"
  unfolding field_lists by simp

lemma float_line:
  assumes k: "key \<in> set float_fields"
    and ws: "w1 \<noteq> []" "list_all isspace w1" "w2 \<noteq> []" "list_all isspace w2"
    and ok: "spec_token_ok tk"
    and lim: "fraction tk = None \<and> exponent tk = None \<longrightarrow> length (whole tk) \<le> int_max_str_digits"
  shows "parse_stats_output (key @ w1 @ '':'' @ w2 @ spec_token_text tk)
                = Inr [(key, spec_token_value tk)]"
proof -
  from k have L: "key \<in> set (float_fields @ count_fields)" by simp
  from k float_count_disjoint [of key] have c: "field_class key = number_class"
    by (simp add: field_class_def)
  from spec_token_class(1) [OF ok] c
  have cl: "list_all (atom_ok (field_class key)) (spec_token_text tk)" by simp
  from parse_single_line [OF L ws spec_token_class(2) [OF ok] cl convert_spec_token [OF ok lim]]
  show ?thesis by simp
qed

lemma count_line:
  assumes k: "key \<in> set count_fields"
    and ws: "w1 \<noteq> []" "list_all isspace w1" "w2 \<noteq> []" "list_all isspace w2"
    and ds: "ds \<noteq> []" "list_all isdecimal ds" and lim: "length ds \<le> int_max_str_digits"
  shows "parse_stats_output (key @ w1 @ '':'' @ w2 @ ds) = Inr [(key, PyInt (int (dec_val ds)))]"
proof -
  from k have L: "key \<in> set (float_fields @ count_fields)" by simp
  from k have c: "field_class key = Digit" by (simp add: field_class_def)
  from ds(2) c have cl: "list_all (atom_ok (field_class key)) ds" by (simp add: list_all_iff)
  from convert_digits [OF ds] lim
  have v: "convert (Some ds) = Inr (PyInt (int (dec_val ds)))" by simp
  from parse_single_line [OF L ws ds(1) cl v] show ?thesis by simp
qed

section \<open>The claims\<close>

text \<open>
  C5: when the split of the captured output on the separator has fewer than four pieces,
  \<open>calculate_mean_rms\<close> raises the \<open>ValueError\<close> of its format check and writes no file: the
  files are those before the call, and only the captured output has been printed.
\<close>

theorem calculate_mean_rms_too_few_blocks:
  assumes "py_split full_output separator = Inr stats_blocks"
    and "length stats_blocks < 4"
  shows "calculate_mean_rms float_repr output_path full_output w =
           (Some (ValueError ''Unexpected output format: not enough stats blocks found.''),
            w\<lparr>stdout := stdout w @ [full_output]\<rparr>)
         \<and> files (snd (calculate_mean_rms float_repr output_path full_output w)) = files w"
  using assms by (simp add: calculate_mean_rms_def Let_def)

theorem calculate_mean_rms_too_few_blocks_witness:
  "py_split ''noise'' separator = Inr [''noise''] \<and> length [''noise''] < 4
   \<and> calculate_mean_rms (\<lambda>v. ''0.0'') ''out'' ''noise'' \<lparr>files = Map.empty, stdout = []\<rparr> =
           (Some (ValueError ''Unexpected output format: not enough stats blocks found.''),
            \<lparr>files = Map.empty, stdout = [''noise'']\<rparr>)"
proof -
  have a: "py_split ''noise'' separator = Inr [''noise'']" by code_simp
  have b: "length [''noise''] < 4" by simp
  from calculate_mean_rms_too_few_blocks [OF a b, of "\<lambda>v. ''0.0''" "''out''"
      "\<lparr>files = Map.empty, stdout = []\<rparr>"]
  show ?thesis using a by simp
qed



text \<open>
  C10: whenever \<open>parse_stats_output\<close> returns a mapping that holds one of the three count
  fields, the value of that field is an integer and it is not negative.
\<close>

theorem count_fields_nonnegative:
  assumes "parse_stats_output s = Inr d"
    and "key \<in> set [''Total number of pixels'', ''Number of pixels used'', ''No. of pixels excluded'']"
    and "map_of d key = Some v"
  shows "\<exists>n. v = PyInt n \<and> 0 \<le> n"
proof -
  from assms(2) have k: "key \<in> set count_fields" by (simp add: count_fields_def)
  then have p: "(key, count_pattern (lit key)) \<in> set patterns" by (simp add: patterns_mem)
  from k have c: "field_class key = Digit" by (simp add: field_class_def)
  from parse_stats_output_lookup [OF assms(1) p] assms(3) c
  obtain t where t: "scan key Digit s = Some t" and v: "convert (Some t) = Inr v"
    by (auto split: option.splits sum.splits)
  from scan_Some_shape [OF t] have "t \<noteq> []" and "list_all isdecimal t"
    by (auto simp: list_all_iff)
  from convert_digits [OF this] v have "v = PyInt (int (dec_val t))"
    by (auto split: if_splits)
  then show ?thesis by simp
qed

theorem count_fields_nonnegative_witness:
  "parse_stats_output ''Total number of pixels : 12.5'' = Inr [(''Total number of pixels'', PyInt 12)]
   \<and> map_of [(''Total number of pixels'', PyInt 12)] ''Total number of pixels'' = Some (PyInt 12)
   \<and> (\<exists>n. PyInt 12 = PyInt n \<and> 0 \<le> n)"
proof -
  have a: "parse_stats_output ''Total number of pixels : 12.5''
      = Inr [(''Total number of pixels'', PyInt 12)]" by code_simp
  have b: "''Total number of pixels''
      \<in> set [''Total number of pixels'', ''Number of pixels used'', ''No. of pixels excluded'']"
    by simp
  have c: "map_of [(''Total number of pixels'', PyInt 12)] ''Total number of pixels''
      = Some (PyInt 12)" by simp
  from count_fields_nonnegative [OF a b c] a c show ?thesis by blast
qed



text \<open>
  C3, as stated, fails: the class of the seven general patterns accepts tokens that are no
  number, and \<open>int\<close> then raises \<open>ValueError\<close>, which \<open>parse_stats_output\<close> lets through.
\<close>

theorem conversion_can_fail:
  "re_search (float_pattern (lit ''Pixel sum'')) ''Pixel sum : -'' = Some (Some ''-'')
   \<and> parse_stats_output ''Pixel sum : -''
       = Inl (ValueError ''invalid literal for int() with base 10'')"
  by code_simp

text \<open>
  C3, amended: \<open>parse_stats_output\<close> returns a mapping exactly when the conversion accepts
  the token of every field that matched; when it raises, the exception is the \<open>ValueError\<close>
  of the conversion of a matched token; and the token of a count field, within the limit on
  the digits of an integer string, always converts.
\<close>

theorem conversion_failure:
  "((\<exists>d. parse_stats_output s = Inr d) \<longleftrightarrow>
      (\<forall>(key, pat) \<in> set patterns. \<forall>tok. re_search pat s = Some (Some tok)
          \<longrightarrow> (\<exists>v. convert (Some tok) = Inr v)))
   \<and> (\<forall>e. parse_stats_output s = Inl e \<longrightarrow>
         (\<exists>key pat tok msg. (key, pat) \<in> set patterns \<and> re_search pat s = Some (Some tok)
            \<and> convert (Some tok) = Inl e \<and> e = ValueError msg))
   \<and> (\<forall>(key, pat) \<in> set patterns. \<forall>tok.
         key \<in> set [''Total number of pixels'', ''Number of pixels used'', ''No. of pixels excluded'']
         \<and> re_search pat s = Some (Some tok) \<and> length tok \<le> int_max_str_digits
         \<longrightarrow> (\<exists>n. convert (Some tok) = Inr (PyInt n)))"
proof (intro conjI)
  show "(\<exists>d. parse_stats_output s = Inr d) \<longleftrightarrow>
      (\<forall>(key, pat) \<in> set patterns. \<forall>tok. re_search pat s = Some (Some tok)
          \<longrightarrow> (\<exists>v. convert (Some tok) = Inr v))"
  proof
    assume "\<exists>d. parse_stats_output s = Inr d"
    then obtain d where d: "parse_stats_output s = Inr d" ..
    show "\<forall>(key, pat) \<in> set patterns. \<forall>tok. re_search pat s = Some (Some tok)
          \<longrightarrow> (\<exists>v. convert (Some tok) = Inr v)"
      using matched_converts [OF d] by blast
  next
    assume a: "\<forall>(key, pat) \<in> set patterns. \<forall>tok. re_search pat s = Some (Some tok)
          \<longrightarrow> (\<exists>v. convert (Some tok) = Inr v)"
    have "\<exists>v. convert g = Inr v" if m: "(k, p) \<in> set patterns" and r: "re_search p s = Some g"
      for k p g
    proof -
      from r obtain tok where "g = Some tok" unfolding patterns_search [OF m] by auto
      with a m r show ?thesis by blast
    qed
    from parse_loop_total [of patterns s "[]", OF this]
    show "\<exists>d. parse_stats_output s = Inr d" by (simp add: parse_stats_output_def)
  qed
next
  show "\<forall>e. parse_stats_output s = Inl e \<longrightarrow>
         (\<exists>key pat tok msg. (key, pat) \<in> set patterns \<and> re_search pat s = Some (Some tok)
            \<and> convert (Some tok) = Inl e \<and> e = ValueError msg)"
  proof (intro allI impI)
    fix e assume "parse_stats_output s = Inl e"
    then have "parse_loop patterns s [] = Inl e" by (simp add: parse_stats_output_def)
    from parse_loop_Inl [OF this] obtain k p g
      where m: "(k, p) \<in> set patterns" and r: "re_search p s = Some g" and c: "convert g = Inl e"
      by blast
    from r obtain tok where g: "g = Some tok" unfolding patterns_search [OF m] by auto
    with convert_error_kind [OF c] obtain msg where "e = ValueError msg" by auto
    with m r c g have "(k, p) \<in> set patterns \<and> re_search p s = Some (Some tok)
            \<and> convert (Some tok) = Inl e \<and> e = ValueError msg" by simp
    then show "\<exists>key pat tok msg. (key, pat) \<in> set patterns \<and> re_search pat s = Some (Some tok)
            \<and> convert (Some tok) = Inl e \<and> e = ValueError msg" by blast
  qed
next
  show "\<forall>(key, pat) \<in> set patterns. \<forall>tok.
         key \<in> set [''Total number of pixels'', ''Number of pixels used'', ''No. of pixels excluded'']
         \<and> re_search pat s = Some (Some tok) \<and> length tok \<le> int_max_str_digits
         \<longrightarrow> (\<exists>n. convert (Some tok) = Inr (PyInt n))"
  proof (intro ballI allI impI, clarify)
    fix key pat tok
    assume m: "(key, pat) \<in> set patterns"
      and k: "key \<in> set [''Total number of pixels'', ''Number of pixels used'', ''No. of pixels excluded'']"
      and r: "re_search pat s = Some (Some tok)"
      and l: "length tok \<le> int_max_str_digits"
    from k have "field_class key = Digit" by (simp add: field_class_def count_fields_def)
    with r have "scan key Digit s = Some tok" unfolding patterns_search [OF m] by auto
    from scan_Some_shape [OF this] have "tok \<noteq> []" and "list_all isdecimal tok"
      by (auto simp: list_all_iff)
    from convert_digits [OF this] l show "\<exists>n. convert (Some tok) = Inr (PyInt n)" by simp
  qed
qed

theorem conversion_failure_witness:
  "parse_stats_output ''Number of pixels used : 25'' = Inr [(''Number of pixels used'', PyInt 25)]
   \<and> parse_stats_output ''Skewness : 1.2.3'' = Inl (ValueError ''could not convert string to float'')
   \<and> (\<exists>key pat tok msg. (key, pat) \<in> set patterns
          \<and> re_search pat ''Skewness : 1.2.3'' = Some (Some tok)
          \<and> convert (Some tok) = Inl (ValueError ''could not convert string to float'')
          \<and> ValueError ''could not convert string to float'' = ValueError msg)
   \<and> (''Number of pixels used'', count_pattern (lit ''Number of pixels used'')) \<in> set patterns
   \<and> re_search (count_pattern (lit ''Number of pixels used'')) ''Number of pixels used : 25''
       = Some (Some ''25'')
   \<and> length ''25'' \<le> int_max_str_digits
   \<and> (\<exists>n. convert (Some ''25'') = Inr (PyInt n))"
proof -
  have a: "parse_stats_output ''Number of pixels used : 25''
      = Inr [(''Number of pixels used'', PyInt 25)]" by code_simp
  have b: "parse_stats_output ''Skewness : 1.2.3''
      = Inl (ValueError ''could not convert string to float'')" by code_simp
  note t1 = conversion_failure [of "''Number of pixels used : 25''"]
  note t2 = conversion_failure [of "''Skewness : 1.2.3''"]
  from t2 b have 2: "\<exists>key pat tok msg. (key, pat) \<in> set patterns
          \<and> re_search pat ''Skewness : 1.2.3'' = Some (Some tok)
          \<and> convert (Some tok) = Inl (ValueError ''could not convert string to float'')
          \<and> ValueError ''could not convert string to float'' = ValueError msg" by blast
  have m: "(''Number of pixels used'', count_pattern (lit ''Number of pixels used'')) \<in> set patterns"
    by (simp add: patterns_def)
  have r: "re_search (count_pattern (lit ''Number of pixels used'')) ''Number of pixels used : 25''
       = Some (Some ''25'')" by code_simp
  have l: "length ''25'' \<le> int_max_str_digits" by (simp add: int_max_str_digits_def)
  have k: "''Number of pixels used''
      \<in> set [''Total number of pixels'', ''Number of pixels used'', ''No. of pixels excluded'']"
    by simp
  from t1 m k r l have 3: "\<exists>n. convert (Some ''25'') = Inr (PyInt n)" by blast
  from a b 2 m r l 3 show ?thesis by blast
qed

text \<open>
  C6: the period of the label \<open>No. of pixels excluded\<close> is a literal. At a position where
  the text has another character in the place of the period the pattern does not match, and
  whenever the field is in the returned mapping the text holds the label itself, period
  included, followed by whitespace, a colon, whitespace and the digits of the value.
\<close>

theorem literal_period:
  assumes "parse_stats_output s = Inr d"
    and "map_of d ''No. of pixels excluded'' = Some v"
  shows "(\<exists>pre w1 w2 ds rest.
            s = pre @ ''No. of pixels excluded'' @ w1 @ '':'' @ w2 @ ds @ rest
            \<and> w1 \<noteq> [] \<and> list_all isspace w1 \<and> w2 \<noteq> [] \<and> list_all isspace w2
            \<and> ds \<noteq> [] \<and> list_all isdecimal ds \<and> v = PyInt (int (dec_val ds)))
         \<and> (\<forall>c rest. c \<noteq> CHR ''.'' \<longrightarrow>
               re_match (count_pattern (lit ''No. of pixels excluded''))
                 (''No'' @ c # '' of pixels excluded'' @ rest) = None)
         \<and> parse_stats_output ''NoX of pixels excluded : 5'' = Inr []"
proof (intro conjI)
  let ?L = "''No. of pixels excluded''"
  have p: "(?L, count_pattern (lit ?L)) \<in> set patterns" by (simp add: patterns_def)
  have c: "field_class ?L = Digit" by (simp add: field_class_def count_fields_def)
  from parse_stats_output_lookup [OF assms(1) p] assms(2) c
  obtain t where t: "scan ?L Digit s = Some t" and v: "convert (Some t) = Inr v"
    by (auto split: option.splits sum.splits)
  from scan_Some_shape [OF t] obtain pre w1 w2 rest where
    s: "s = pre @ ?L @ w1 @ CHR '':'' # w2 @ t @ rest" and w: "w1 \<noteq> []" "list_all isspace w1"
      "w2 \<noteq> []" "list_all isspace w2" and d: "t \<noteq> []" "list_all (atom_ok Digit) t"
    by blast
  from d have d': "list_all isdecimal t" by (simp add: list_all_iff)
  from convert_digits [OF d(1) d'] v have "v = PyInt (int (dec_val t))"
    by (auto split: if_splits)
  with s w d(1) d' have "s = pre @ ?L @ w1 @ '':'' @ w2 @ t @ rest
            \<and> w1 \<noteq> [] \<and> list_all isspace w1 \<and> w2 \<noteq> [] \<and> list_all isspace w2
            \<and> t \<noteq> [] \<and> list_all isdecimal t \<and> v = PyInt (int (dec_val t))" by simp
  then show "\<exists>pre w1 w2 ds rest.
            s = pre @ ?L @ w1 @ '':'' @ w2 @ ds @ rest
            \<and> w1 \<noteq> [] \<and> list_all isspace w1 \<and> w2 \<noteq> [] \<and> list_all isspace w2
            \<and> ds \<noteq> [] \<and> list_all isdecimal ds \<and> v = PyInt (int (dec_val ds))" by blast
next
  show "\<forall>c rest. c \<noteq> CHR ''.'' \<longrightarrow>
               re_match (count_pattern (lit ''No. of pixels excluded''))
                 (''No'' @ c # '' of pixels excluded'' @ rest) = None"
  proof (intro allI impI)
    fix c :: char and rest
    assume c: "c \<noteq> CHR ''.''"
    have "re_match (lit ''No. of pixels excluded'' @ tail Digit) x
        = map_option Some (match_at ''No. of pixels excluded'' Digit x)" for x
      by (rule re_match_field) (rule digit_not_space)
    with c show "re_match (count_pattern (lit ''No. of pixels excluded''))
                 (''No'' @ c # '' of pixels excluded'' @ rest) = None"
      by (simp add: count_pattern_tail match_at_def)
  qed
next
  show "parse_stats_output ''NoX of pixels excluded : 5'' = Inr []" by code_simp
qed

theorem literal_period_witness:
  "parse_stats_output ''No. of pixels excluded : 5'' = Inr [(''No. of pixels excluded'', PyInt 5)]
   \<and> map_of [(''No. of pixels excluded'', PyInt 5)] ''No. of pixels excluded'' = Some (PyInt 5)
   \<and> (\<exists>pre w1 w2 ds rest.
         ''No. of pixels excluded : 5'' = pre @ ''No. of pixels excluded'' @ w1 @ '':'' @ w2 @ ds @ rest
         \<and> w1 \<noteq> [] \<and> list_all isspace w1 \<and> w2 \<noteq> [] \<and> list_all isspace w2
         \<and> ds \<noteq> [] \<and> list_all isdecimal ds \<and> PyInt 5 = PyInt (int (dec_val ds)))"
proof -
  have a: "parse_stats_output ''No. of pixels excluded : 5''
      = Inr [(''No. of pixels excluded'', PyInt 5)]" by code_simp
  have b: "map_of [(''No. of pixels excluded'', PyInt 5)] ''No. of pixels excluded''
      = Some (PyInt 5)" by simp
  from literal_period [OF a b] a b show ?thesis by blast
qed

text \<open>
  C9: the keys of the mapping that \<open>parse_stats_output\<close> returns are in the order in which
  \<open>patterns\<close> declares them, whatever their order in the text, each at most once. The record
  that the loop of \<open>calculate_mean_rms\<close> writes for a text is the dump of that mapping with
  indentation 2: the items in the order of the mapping, each on a line of its own that
  starts with two spaces, the lines joined by a comma and a newline between the braces.
\<close>

theorem stable_key_order:
  assumes "parse_stats_output s = Inr d"
  shows "subseq (map fst d)
           [''Pixel sum'', ''Pixel mean'', ''Standard deviation'', ''Skewness'', ''Kurtosis'',
            ''Minimum pixel value'', ''Maximum pixel value'', ''Total number of pixels'',
            ''Number of pixels used'', ''No. of pixels excluded'']
         \<and> distinct (map fst d)
         \<and> write_stats float_repr [(s, json_file)] w =
             (None, w\<lparr>files := (files w)(json_file \<mapsto> json_dumps float_repr 2 d),
                       stdout := stdout w @ [''Saved stats to '' @ json_file]\<rparr>)
         \<and> json_dumps float_repr 2 d =
             (if d = [] then ''{}''
              else ''{'' @ [CHR 0x0A]
                   @ join_with ('','' @ [CHR 0x0A]) (map (json_line float_repr) d)
                   @ [CHR 0x0A] @ ''}'')
         \<and> parse_stats_output ''Pixel mean : 2 Pixel sum : 1''
             = Inr [(''Pixel sum'', PyInt 1), (''Pixel mean'', PyInt 2)]"
proof (intro conjI)
  from parse_stats_output_Inr [OF assms] have d: "d = collected patterns s" .
  have "map fst patterns =
           [''Pixel sum'', ''Pixel mean'', ''Standard deviation'', ''Skewness'', ''Kurtosis'',
            ''Minimum pixel value'', ''Maximum pixel value'', ''Total number of pixels'',
            ''Number of pixels used'', ''No. of pixels excluded'']"
    by (simp add: patterns_def)
  with collected_keys_subseq [of patterns s] d
  show "subseq (map fst d)
           [''Pixel sum'', ''Pixel mean'', ''Standard deviation'', ''Skewness'', ''Kurtosis'',
            ''Minimum pixel value'', ''Maximum pixel value'', ''Total number of pixels'',
            ''Number of pixels used'', ''No. of pixels excluded'']" by simp
  from collected_distinct [OF distinct_patterns, of s] d show "distinct (map fst d)" by simp
  from assms show "write_stats float_repr [(s, json_file)] w =
             (None, w\<lparr>files := (files w)(json_file \<mapsto> json_dumps float_repr 2 d),
                       stdout := stdout w @ [''Saved stats to '' @ json_file]\<rparr>)" by simp
  show "json_dumps float_repr 2 d =
             (if d = [] then ''{}''
              else ''{'' @ [CHR 0x0A]
                   @ join_with ('','' @ [CHR 0x0A]) (map (json_line float_repr) d)
                   @ [CHR 0x0A] @ ''}'')"
  proof (cases "d = []")
    case True
    then show ?thesis by (simp add: json_dumps_def)
  next
    case False
    from json_dumps_lines [OF False, of float_repr] False show ?thesis by simp
  qed
  show "parse_stats_output ''Pixel mean : 2 Pixel sum : 1''
             = Inr [(''Pixel sum'', PyInt 1), (''Pixel mean'', PyInt 2)]" by code_simp
qed

theorem stable_key_order_witness:
  "parse_stats_output ''Skewness : 3 Pixel sum : 1''
     = Inr [(''Pixel sum'', PyInt 1), (''Skewness'', PyInt 3)]
   \<and> subseq (map fst [(''Pixel sum'', PyInt 1), (''Skewness'', PyInt 3)])
           [''Pixel sum'', ''Pixel mean'', ''Standard deviation'', ''Skewness'', ''Kurtosis'',
            ''Minimum pixel value'', ''Maximum pixel value'', ''Total number of pixels'',
            ''Number of pixels used'', ''No. of pixels excluded'']
   \<and> json_dumps (\<lambda>v. ''0.0'') 2 [(''Pixel sum'', PyInt 1), (''Skewness'', PyInt 3)]
       = ''{'' @ [CHR 0x0A] @ ''  '' @ [CHR 0x22] @ ''Pixel sum'' @ [CHR 0x22] @ '': 1,'' @ [CHR 0x0A]
         @ ''  '' @ [CHR 0x22] @ ''Skewness'' @ [CHR 0x22] @ '': 3'' @ [CHR 0x0A] @ ''}''"
proof -
  have a: "parse_stats_output ''Skewness : 3 Pixel sum : 1''
     = Inr [(''Pixel sum'', PyInt 1), (''Skewness'', PyInt 3)]" by code_simp
  note t = stable_key_order [OF a, of "\<lambda>v. ''0.0''" "''f''" "\<lparr>files = Map.empty, stdout = []\<rparr>"]
  have n: "show_int 1 = ''1''" "show_int 3 = ''3''" by code_simp+
  from t have j: "json_dumps (\<lambda>v. ''0.0'') 2 [(''Pixel sum'', PyInt 1), (''Skewness'', PyInt 3)]
       = ''{'' @ [CHR 0x0A] @ ''  '' @ [CHR 0x22] @ ''Pixel sum'' @ [CHR 0x22] @ '': 1,'' @ [CHR 0x0A]
         @ ''  '' @ [CHR 0x22] @ ''Skewness'' @ [CHR 0x22] @ '': 3'' @ [CHR 0x0A] @ ''}''"
    by (simp add: json_line_def json_key_def n)
  from a t [THEN conjunct1] j show ?thesis by simp
qed

text \<open>
  C4, as stated, fails: with four pieces after the split, a section whose parse raises stops
  the call before its record is written. Here the first section holds a token that \<open>int\<close>
  rejects, so the call raises and writes none of the three records.
\<close>

theorem calculate_mean_rms_section_fails:
  "py_split (''x'' @ separator @ '' Pixel sum : -'' @ separator @ separator) separator
     = Inr [''x'', '' Pixel sum : -'', [], []]
   \<and> fst (calculate_mean_rms (\<lambda>v. ''0.0'') ''out''
            (''x'' @ separator @ '' Pixel sum : -'' @ separator @ separator)
            \<lparr>files = Map.empty, stdout = []\<rparr>)
       = Some (ValueError ''invalid literal for int() with base 10'')
   \<and> map (files (snd (calculate_mean_rms (\<lambda>v. ''0.0'') ''out''
            (''x'' @ separator @ '' Pixel sum : -'' @ separator @ separator)
            \<lparr>files = Map.empty, stdout = []\<rparr>))) (stats_files ''out'')
       = [None, None, None]"
  by code_simp

text \<open>
  C4, amended: when the split has at least four pieces, \<open>calculate_mean_rms\<close> parses the three
  sections after the preamble in order, whatever follows them, and the three destinations
  are distinct. When the three parses return, it writes the three records, each to the
  destination of its section, and raises nothing. When the parse of a section raises, the
  call raises that exception with the records of the sections before it written and no
  other.
\<close>

theorem calculate_mean_rms_three_sections:
  assumes "py_split full_output separator = Inr stats_blocks"
    and "4 \<le> length stats_blocks"
    and "w1 = w\<lparr>stdout := stdout w @ [full_output]\<rparr>"
    and "f1 = path_join output_path ''noisemap_stats.json''"
    and "f2 = path_join output_path ''1kms_error_stats.json''"
    and "f3 = path_join output_path ''1kms_noisemap_stats.json''"
  shows "distinct [f1, f2, f3]
    \<and> (\<forall>d1 d2 d3.
          parse_stats_output (stats_blocks ! 1) = Inr d1
          \<and> parse_stats_output (stats_blocks ! 2) = Inr d2
          \<and> parse_stats_output (stats_blocks ! 3) = Inr d3
          \<longrightarrow> calculate_mean_rms float_repr output_path full_output w =
                (None,
                 w1\<lparr>files := (files w)(f1 \<mapsto> json_dumps float_repr 2 d1,
                                         f2 \<mapsto> json_dumps float_repr 2 d2,
                                         f3 \<mapsto> json_dumps float_repr 2 d3),
                    stdout := stdout w1 @ [''Saved stats to '' @ f1, ''Saved stats to '' @ f2,
                                           ''Saved stats to '' @ f3]\<rparr>))
    \<and> (\<forall>e. parse_stats_output (stats_blocks ! 1) = Inl e
          \<longrightarrow> calculate_mean_rms float_repr output_path full_output w = (Some e, w1))
    \<and> (\<forall>d1 e.
          parse_stats_output (stats_blocks ! 1) = Inr d1
          \<and> parse_stats_output (stats_blocks ! 2) = Inl e
          \<longrightarrow> calculate_mean_rms float_repr output_path full_output w =
                (Some e,
                 w1\<lparr>files := (files w)(f1 \<mapsto> json_dumps float_repr 2 d1),
                    stdout := stdout w1 @ [''Saved stats to '' @ f1]\<rparr>))
    \<and> (\<forall>d1 d2 e.
          parse_stats_output (stats_blocks ! 1) = Inr d1
          \<and> parse_stats_output (stats_blocks ! 2) = Inr d2
          \<and> parse_stats_output (stats_blocks ! 3) = Inl e
          \<longrightarrow> calculate_mean_rms float_repr output_path full_output w =
                (Some e,
                 w1\<lparr>files := (files w)(f1 \<mapsto> json_dumps float_repr 2 d1,
                                         f2 \<mapsto> json_dumps float_repr 2 d2),
                    stdout := stdout w1 @ [''Saved stats to '' @ f1, ''Saved stats to '' @ f2]\<rparr>))"
proof -
  note loop = calculate_mean_rms_loop [OF assms(1,2), of float_repr output_path w,
      folded assms(3,4,5,6)]
  from stats_files_distinct [of output_path] have "distinct [f1, f2, f3]"
    by (simp add: stats_files_def assms(4,5,6))
  moreover have "\<forall>d1 d2 d3.
          parse_stats_output (stats_blocks ! 1) = Inr d1
          \<and> parse_stats_output (stats_blocks ! 2) = Inr d2
          \<and> parse_stats_output (stats_blocks ! 3) = Inr d3
          \<longrightarrow> calculate_mean_rms float_repr output_path full_output w =
                (None,
                 w1\<lparr>files := (files w)(f1 \<mapsto> json_dumps float_repr 2 d1,
                                         f2 \<mapsto> json_dumps float_repr 2 d2,
                                         f3 \<mapsto> json_dumps float_repr 2 d3),
                    stdout := stdout w1 @ [''Saved stats to '' @ f1, ''Saved stats to '' @ f2,
                                           ''Saved stats to '' @ f3]\<rparr>)"
    unfolding loop by (simp add: assms(3))
  moreover have "\<forall>e. parse_stats_output (stats_blocks ! 1) = Inl e
          \<longrightarrow> calculate_mean_rms float_repr output_path full_output w = (Some e, w1)"
    unfolding loop by simp
  moreover have "\<forall>d1 e.
          parse_stats_output (stats_blocks ! 1) = Inr d1
          \<and> parse_stats_output (stats_blocks ! 2) = Inl e
          \<longrightarrow> calculate_mean_rms float_repr output_path full_output w =
                (Some e,
                 w1\<lparr>files := (files w)(f1 \<mapsto> json_dumps float_repr 2 d1),
                    stdout := stdout w1 @ [''Saved stats to '' @ f1]\<rparr>)"
    unfolding loop by (simp add: assms(3))
  moreover have "\<forall>d1 d2 e.
          parse_stats_output (stats_blocks ! 1) = Inr d1
          \<and> parse_stats_output (stats_blocks ! 2) = Inr d2
          \<and> parse_stats_output (stats_blocks ! 3) = Inl e
          \<longrightarrow> calculate_mean_rms float_repr output_path full_output w =
                (Some e,
                 w1\<lparr>files := (files w)(f1 \<mapsto> json_dumps float_repr 2 d1,
                                         f2 \<mapsto> json_dumps float_repr 2 d2),
                    stdout := stdout w1 @ [''Saved stats to '' @ f1, ''Saved stats to '' @ f2]\<rparr>)"
    unfolding loop by (simp add: assms(3))
  ultimately show ?thesis by (intro conjI)
qed

theorem calculate_mean_rms_three_sections_witness:
  "py_split scenario_blob separator
     = Inr [''noise\<newline>'', ''\<newline>Pixel sum        :   10.5\<newline>'',
            ''\<newline>Pixel mean       :   2\<newline>'', ''\<newline>Skewness         :   -0.3\<newline>'']
   \<and> parse_stats_output ''\<newline>Pixel sum        :   10.5\<newline>'' = Inr [(''Pixel sum'', PyFloat (21 / 2))]
   \<and> parse_stats_output ''\<newline>Pixel mean       :   2\<newline>'' = Inr [(''Pixel mean'', PyInt 2)]
   \<and> parse_stats_output ''\<newline>Skewness         :   -0.3\<newline>'' = Inr [(''Skewness'', PyFloat (- (3 / 10)))]
   \<and> calculate_mean_rms (\<lambda>v. ''0.0'') ''out'' scenario_blob \<lparr>files = Map.empty, stdout = []\<rparr> =
       (None,
        \<lparr>files = [''out/noisemap_stats.json'' \<mapsto>
                     json_dumps (\<lambda>v. ''0.0'') 2 [(''Pixel sum'', PyFloat (21 / 2))],
                   ''out/1kms_error_stats.json'' \<mapsto>
                     json_dumps (\<lambda>v. ''0.0'') 2 [(''Pixel mean'', PyInt 2)],
                   ''out/1kms_noisemap_stats.json'' \<mapsto>
                     json_dumps (\<lambda>v. ''0.0'') 2 [(''Skewness'', PyFloat (- (3 / 10)))]],
         stdout = [scenario_blob, ''Saved stats to out/noisemap_stats.json'',
                   ''Saved stats to out/1kms_error_stats.json'',
                   ''Saved stats to out/1kms_noisemap_stats.json'']\<rparr>)"
proof -
  let ?bs = "[''noise\<newline>'', ''\<newline>Pixel sum        :   10.5\<newline>'',
            ''\<newline>Pixel mean       :   2\<newline>'', ''\<newline>Skewness         :   -0.3\<newline>'']"
  let ?w = "\<lparr>files = Map.empty, stdout = []\<rparr> :: world"
  have a: "py_split scenario_blob separator = Inr ?bs" by code_simp
  have b: "4 \<le> length ?bs" by simp
  have p1: "parse_stats_output ''\<newline>Pixel sum        :   10.5\<newline>''
      = Inr [(''Pixel sum'', PyFloat (21 / 2))]" by code_simp
  have p2: "parse_stats_output ''\<newline>Pixel mean       :   2\<newline>''
      = Inr [(''Pixel mean'', PyInt 2)]" by code_simp
  have p3: "parse_stats_output ''\<newline>Skewness         :   -0.3\<newline>''
      = Inr [(''Skewness'', PyFloat (- (3 / 10)))]" by code_simp
  note t = calculate_mean_rms_three_sections [OF a b refl refl refl refl,
      where w = ?w and float_repr = "\<lambda>v. ''0.0''" and output_path = "''out''",
      THEN conjunct2, THEN conjunct1, rule_format,
      where ?d1.0 = "[(''Pixel sum'', PyFloat (21 / 2))]"
        and ?d2.0 = "[(''Pixel mean'', PyInt 2)]"
        and ?d3.0 = "[(''Skewness'', PyFloat (- (3 / 10)))]"]
  have "calculate_mean_rms (\<lambda>v. ''0.0'') ''out'' scenario_blob ?w =
       (None,
        \<lparr>files = [''out/noisemap_stats.json'' \<mapsto>
                     json_dumps (\<lambda>v. ''0.0'') 2 [(''Pixel sum'', PyFloat (21 / 2))],
                   ''out/1kms_error_stats.json'' \<mapsto>
                     json_dumps (\<lambda>v. ''0.0'') 2 [(''Pixel mean'', PyInt 2)],
                   ''out/1kms_noisemap_stats.json'' \<mapsto>
                     json_dumps (\<lambda>v. ''0.0'') 2 [(''Skewness'', PyFloat (- (3 / 10)))]],
         stdout = [scenario_blob, ''Saved stats to out/noisemap_stats.json'',
                   ''Saved stats to out/1kms_error_stats.json'',
                   ''Saved stats to out/1kms_noisemap_stats.json'']\<rparr>)"
    using t p1 p2 p3 by (simp add: path_join_def)
  with a p1 p2 p3 show ?thesis by (intro conjI)
qed

text \<open>
  C1, as stated, fails. A count field does not take a numeric token with a minus sign, a
  decimal point or an exponent: \<open>-5\<close> is not extracted and of \<open>1.5\<close> only \<open>1\<close> is. A label
  directly followed by the colon is not matched. A numeric token directly followed by
  characters of the class is captured with them and may then not convert. Of two occurrences
  of a field the first is the one extracted.
\<close>

theorem field_extraction_fails:
  "parse_stats_output ''Total number of pixels : -5'' = Inr []
   \<and> parse_stats_output ''Total number of pixels : 1.5'' = Inr [(''Total number of pixels'', PyInt 1)]
   \<and> parse_stats_output ''Pixel sum: 5'' = Inr []
   \<and> parse_stats_output ''Pixel sum : 1.5-3''
       = Inl (ValueError ''could not convert string to float'')
   \<and> parse_stats_output ''Pixel sum : 1 Pixel sum : 2'' = Inr [(''Pixel sum'', PyInt 1)]"
  by code_simp

text \<open>
  C1, amended. Let \<open>parse_stats_output\<close> return a mapping for a text. If the first occurrence
  of the label of one of the seven general fields is followed by whitespace, a colon,
  whitespace and a numeric token of the specification that ends the text or is followed by a
  character outside the class of the pattern, then the mapping binds the key to the value of
  the token, typed by its lexical form (an integer token within the limit on the digits of an
  integer string). For the three count fields the same holds for a token of digits only,
  followed by no digit. If the label of a field does not occur in the text, the search of its
  pattern finds nothing, so that the field raises nothing and its key is absent.
\<close>

theorem field_extraction:
  assumes "parse_stats_output s = Inr d"
  shows
    "(\<forall>key pre w1 w2 tk rest.
        key \<in> set [''Pixel sum'', ''Pixel mean'', ''Standard deviation'', ''Skewness'', ''Kurtosis'',
                    ''Minimum pixel value'', ''Maximum pixel value'']
        \<and> s = pre @ key @ w1 @ '':'' @ w2 @ spec_token_text tk @ rest
        \<and> (\<forall>i<length pre. \<not> occurs_at key s i)
        \<and> w1 \<noteq> [] \<and> list_all isspace w1 \<and> w2 \<noteq> [] \<and> list_all isspace w2
        \<and> spec_token_ok tk
        \<and> (fraction tk = None \<and> exponent tk = None \<longrightarrow> length (whole tk) \<le> int_max_str_digits)
        \<and> (rest = [] \<or> hd rest \<notin> set ''-0123456789.eE+'')
        \<longrightarrow> map_of d key = Some (spec_token_value tk))
     \<and> (\<forall>key pre w1 w2 ds rest.
        key \<in> set [''Total number of pixels'', ''Number of pixels used'', ''No. of pixels excluded'']
        \<and> s = pre @ key @ w1 @ '':'' @ w2 @ ds @ rest
        \<and> (\<forall>i<length pre. \<not> occurs_at key s i)
        \<and> w1 \<noteq> [] \<and> list_all isspace w1 \<and> w2 \<noteq> [] \<and> list_all isspace w2
        \<and> ds \<noteq> [] \<and> list_all isdecimal ds \<and> length ds \<le> int_max_str_digits
        \<and> (rest = [] \<or> hd rest \<notin> set ''0123456789'')
        \<longrightarrow> map_of d key = Some (PyInt (int (dec_val ds))))
     \<and> (\<forall>(key, pat) \<in> set patterns.
        \<not> sublist key s \<longrightarrow> re_search pat s = None \<and> map_of d key = None)"
proof (intro conjI allI impI ballI)
  fix key pre w1 w2 tk rest
  assume a: "key \<in> set [''Pixel sum'', ''Pixel mean'', ''Standard deviation'', ''Skewness'', ''Kurtosis'',
                    ''Minimum pixel value'', ''Maximum pixel value'']
        \<and> s = pre @ key @ w1 @ '':'' @ w2 @ spec_token_text tk @ rest
        \<and> (\<forall>i<length pre. \<not> occurs_at key s i)
        \<and> w1 \<noteq> [] \<and> list_all isspace w1 \<and> w2 \<noteq> [] \<and> list_all isspace w2
        \<and> spec_token_ok tk
        \<and> (fraction tk = None \<and> exponent tk = None \<longrightarrow> length (whole tk) \<le> int_max_str_digits)
        \<and> (rest = [] \<or> hd rest \<notin> set ''-0123456789.eE+'')"
  then have k: "key \<in> set float_fields" unfolding field_lists by (elim conjE)
  from a show "map_of d key = Some (spec_token_value tk)"
    by (elim conjE) (rule float_field_found [OF assms k])
next
  fix key pre w1 w2 ds rest
  assume a: "key \<in> set [''Total number of pixels'', ''Number of pixels used'', ''No. of pixels excluded'']
        \<and> s = pre @ key @ w1 @ '':'' @ w2 @ ds @ rest
        \<and> (\<forall>i<length pre. \<not> occurs_at key s i)
        \<and> w1 \<noteq> [] \<and> list_all isspace w1 \<and> w2 \<noteq> [] \<and> list_all isspace w2
        \<and> ds \<noteq> [] \<and> list_all isdecimal ds \<and> length ds \<le> int_max_str_digits
        \<and> (rest = [] \<or> hd rest \<notin> set ''0123456789'')"
  then have k: "key \<in> set count_fields" unfolding field_lists by (elim conjE)
  from a show "map_of d key = Some (PyInt (int (dec_val ds)))"
    by (elim conjE) (rule count_field_found [OF assms k])
next
  fix x assume x: "x \<in> set patterns"
  show "case x of (key, pat) \<Rightarrow> \<not> sublist key s \<longrightarrow> re_search pat s = None \<and> map_of d key = None"
  proof (cases x)
    case (Pair key pat)
    with x have m: "(key, pat) \<in> set patterns" by simp
    have "re_search pat s = None \<and> map_of d key = None" if n: "\<not> sublist key s"
    proof -
      from scan_None_no_label [OF n] have "scan key (field_class key) s = None" .
      with parse_stats_output_lookup [OF assms m] absent_label [OF m n] show ?thesis by simp
    qed
    with Pair show ?thesis by simp
  qed
qed

theorem field_extraction_witness:
  "parse_stats_output ''x Pixel mean  :  -1.25e2 Number of pixels used : 25)''
     = Inr [(''Pixel mean'', PyFloat (- 125)), (''Number of pixels used'', PyInt 25)]
   \<and> map_of [(''Pixel mean'', PyFloat (- 125)), (''Number of pixels used'', PyInt 25)] ''Pixel mean''
       = Some (spec_token_value
                 \<lparr>minus = True, whole = ''1'', fraction = Some ''25'',
                  exponent = Some (CHR ''e'', None, ''2'')\<rparr>)
   \<and> map_of [(''Pixel mean'', PyFloat (- 125)), (''Number of pixels used'', PyInt 25)]
         ''Number of pixels used''
       = Some (PyInt (int (dec_val ''25'')))
   \<and> re_search (float_pattern (lit ''Kurtosis''))
         ''x Pixel mean  :  -1.25e2 Number of pixels used : 25)'' = None
   \<and> map_of [(''Pixel mean'', PyFloat (- 125)), (''Number of pixels used'', PyInt 25)] ''Kurtosis''
       = None"
proof -
  let ?s = "''x Pixel mean  :  -1.25e2 Number of pixels used : 25)''"
  let ?d = "[(''Pixel mean'', PyFloat (- 125)), (''Number of pixels used'', PyInt 25)]"
  let ?tk = "\<lparr>minus = True, whole = ''1'', fraction = Some ''25'',
              exponent = Some (CHR ''e'', None, ''2'')\<rparr>"
  have a: "parse_stats_output ?s = Inr ?d" by code_simp
  note t = field_extraction [OF a]
  have sp: "list_all isspace '' ''" "list_all isspace ''  ''" by (simp_all add: isspace_def)
  have f1: "\<forall>i<length ''x ''. \<not> occurs_at ''Pixel mean'' ?s i"
    using first_occurrence_hd [of "''Pixel mean''" "''x ''"
        "''Pixel mean  :  -1.25e2 Number of pixels used : 25)''"] by simp
  have h1: "''Pixel mean'' \<in> set [''Pixel sum'', ''Pixel mean'', ''Standard deviation'',
                    ''Skewness'', ''Kurtosis'', ''Minimum pixel value'', ''Maximum pixel value'']
        \<and> ?s = ''x '' @ ''Pixel mean'' @ ''  '' @ '':'' @ ''  '' @ spec_token_text ?tk
               @ '' Number of pixels used : 25)''
        \<and> (\<forall>i<length ''x ''. \<not> occurs_at ''Pixel mean'' ?s i)
        \<and> ''  '' \<noteq> [] \<and> list_all isspace ''  '' \<and> ''  '' \<noteq> [] \<and> list_all isspace ''  ''
        \<and> spec_token_ok ?tk
        \<and> (fraction ?tk = None \<and> exponent ?tk = None \<longrightarrow> length (whole ?tk) \<le> int_max_str_digits)
        \<and> ('' Number of pixels used : 25)'' = []
            \<or> hd '' Number of pixels used : 25)'' \<notin> set ''-0123456789.eE+'')"
    using f1 sp
    by (simp add: spec_token_text_def spec_sign_text_def spec_token_ok_def isdecimal_def)
  from t [THEN conjunct1, rule_format, OF h1]
  have r1: "map_of ?d ''Pixel mean'' = Some (spec_token_value ?tk)" .
  have f2: "\<forall>i<length ''x Pixel mean  :  -1.25e2 ''. \<not> occurs_at ''Number of pixels used'' ?s i"
    using first_occurrence_hd [of "''Number of pixels used''" "''x Pixel mean  :  -1.25e2 ''"
        "''Number of pixels used : 25)''"] by simp
  have h2: "''Number of pixels used''
          \<in> set [''Total number of pixels'', ''Number of pixels used'', ''No. of pixels excluded'']
        \<and> ?s = ''x Pixel mean  :  -1.25e2 '' @ ''Number of pixels used'' @ '' '' @ '':'' @ '' ''
               @ ''25'' @ '')''
        \<and> (\<forall>i<length ''x Pixel mean  :  -1.25e2 ''. \<not> occurs_at ''Number of pixels used'' ?s i)
        \<and> '' '' \<noteq> [] \<and> list_all isspace '' '' \<and> '' '' \<noteq> [] \<and> list_all isspace '' ''
        \<and> ''25'' \<noteq> [] \<and> list_all isdecimal ''25'' \<and> length ''25'' \<le> int_max_str_digits
        \<and> ('')'' = [] \<or> hd '')'' \<notin> set ''0123456789'')"
    using f2 sp by (simp add: isdecimal_def int_max_str_digits_def)
  from t [THEN conjunct2, THEN conjunct1, rule_format, OF h2]
  have r2: "map_of ?d ''Number of pixels used'' = Some (PyInt (int (dec_val ''25'')))" .
  have m: "(''Kurtosis'', float_pattern (lit ''Kurtosis'')) \<in> set patterns"
    by (simp add: patterns_def)
  have n: "\<not> sublist ''Kurtosis'' ?s" by (rule no_sublist_hd) simp_all
  from t [THEN conjunct2, THEN conjunct2, rule_format, OF m] n
  have r3: "re_search (float_pattern (lit ''Kurtosis'')) ?s = None \<and> map_of ?d ''Kurtosis'' = None"
    by simp
  from a r1 r2 r3 show ?thesis by (intro conjI) simp_all
qed

text \<open>
  C8, as stated, fails: a line of a count field whose numeric value has a sign is of the form
  label, whitespace, colon, whitespace, numeric value, and the field is not extracted from
  it, with one space or with several around the colon.
\<close>

theorem whitespace_line_not_extracted:
  "parse_stats_output ''Number of pixels used : -5'' = Inr []
   \<and> parse_stats_output ''Number of pixels used    :    -5'' = Inr []"
  by code_simp

text \<open>
  C8, amended. For each of the ten fields and every text that starts with the label, one or
  more whitespace characters, a colon and one or more whitespace characters, the result of
  \<open>parse_stats_output\<close> is the same whatever the amounts of whitespace, for every rest of the
  text. On a line that ends with a numeric token of the specification, a general field is
  extracted with the value of the token; a count field is extracted with the value of a
  token of digits only.
\<close>

theorem whitespace_tolerance:
  assumes "key \<in> set [''Pixel sum'', ''Pixel mean'', ''Standard deviation'', ''Skewness'',
                        ''Kurtosis'', ''Minimum pixel value'', ''Maximum pixel value'',
                        ''Total number of pixels'', ''Number of pixels used'',
                        ''No. of pixels excluded'']"
    and "w1 \<noteq> []" "list_all isspace w1" "w2 \<noteq> []" "list_all isspace w2"
    and "v1 \<noteq> []" "list_all isspace v1" "v2 \<noteq> []" "list_all isspace v2"
  shows "parse_stats_output (key @ w1 @ '':'' @ w2 @ r)
           = parse_stats_output (key @ v1 @ '':'' @ v2 @ r)
    \<and> (\<forall>tk. key \<in> set [''Pixel sum'', ''Pixel mean'', ''Standard deviation'', ''Skewness'',
                          ''Kurtosis'', ''Minimum pixel value'', ''Maximum pixel value'']
            \<and> spec_token_ok tk
            \<and> (fraction tk = None \<and> exponent tk = None
                 \<longrightarrow> length (whole tk) \<le> int_max_str_digits)
          \<longrightarrow> parse_stats_output (key @ w1 @ '':'' @ w2 @ spec_token_text tk)
                = Inr [(key, spec_token_value tk)])
    \<and> (\<forall>ds. key \<in> set [''Total number of pixels'', ''Number of pixels used'',
                          ''No. of pixels excluded'']
            \<and> ds \<noteq> [] \<and> list_all isdecimal ds \<and> length ds \<le> int_max_str_digits
          \<longrightarrow> parse_stats_output (key @ w1 @ '':'' @ w2 @ ds)
                = Inr [(key, PyInt (int (dec_val ds)))])"
proof -
  from assms(1) have L: "key \<in> set (float_fields @ count_fields)" by (simp only: ten_labels)
  from parse_ws_invariant [OF L assms(2-9), of r]
  have 1: "parse_stats_output (key @ w1 @ '':'' @ w2 @ r)
           = parse_stats_output (key @ v1 @ '':'' @ v2 @ r)" by simp
  have 2: "parse_stats_output (key @ w1 @ '':'' @ w2 @ spec_token_text tk)
                = Inr [(key, spec_token_value tk)]"
    if "key \<in> set [''Pixel sum'', ''Pixel mean'', ''Standard deviation'', ''Skewness'',
                          ''Kurtosis'', ''Minimum pixel value'', ''Maximum pixel value'']
            \<and> spec_token_ok tk
            \<and> (fraction tk = None \<and> exponent tk = None
                 \<longrightarrow> length (whole tk) \<le> int_max_str_digits)" for tk
  proof -
    from that have k: "key \<in> set float_fields" unfolding field_lists by (rule conjunct1)
    from that have ok: "spec_token_ok tk" by (rule conjunct2 [THEN conjunct1])
    from that have lim: "fraction tk = None \<and> exponent tk = None
                 \<longrightarrow> length (whole tk) \<le> int_max_str_digits"
      by (rule conjunct2 [THEN conjunct2])
    show ?thesis by (rule float_line [OF k assms(2-5) ok lim])
  qed
  have 3: "parse_stats_output (key @ w1 @ '':'' @ w2 @ ds)
                = Inr [(key, PyInt (int (dec_val ds)))]"
    if "key \<in> set [''Total number of pixels'', ''Number of pixels used'',
                          ''No. of pixels excluded'']
            \<and> ds \<noteq> [] \<and> list_all isdecimal ds \<and> length ds \<le> int_max_str_digits" for ds
  proof -
    from that have k: "key \<in> set count_fields" unfolding field_lists by (rule conjunct1)
    from that have d1: "ds \<noteq> []" by (rule conjunct2 [THEN conjunct1])
    from that have d2: "list_all isdecimal ds" by (rule conjunct2 [THEN conjunct2, THEN conjunct1])
    from that have lim: "length ds \<le> int_max_str_digits"
      by (rule conjunct2 [THEN conjunct2, THEN conjunct2])
    show ?thesis by (rule count_line [OF k assms(2-5) d1 d2 lim])
  qed
  from 1 2 3 show ?thesis by (intro conjI allI impI)
qed

theorem whitespace_tolerance_witness:
  "parse_stats_output (''Skewness'' @ '' '' @ '':'' @ ''   '' @ ''-0.3 ok'')
     = parse_stats_output (''Skewness'' @ [CHR 0x09] @ '':'' @ ''  '' @ ''-0.3 ok'')
   \<and> parse_stats_output
         (''Skewness'' @ '' '' @ '':'' @ ''   ''
            @ spec_token_text \<lparr>minus = True, whole = ''0'', fraction = Some ''3'', exponent = None\<rparr>)
       = Inr [(''Skewness'',
               spec_token_value \<lparr>minus = True, whole = ''0'', fraction = Some ''3'', exponent = None\<rparr>)]
   \<and> parse_stats_output (''Total number of pixels'' @ ''  '' @ '':'' @ '' '' @ ''100'')
       = Inr [(''Total number of pixels'', PyInt (int (dec_val ''100'')))]"
proof -
  let ?tk = "\<lparr>minus = True, whole = ''0'', fraction = Some ''3'', exponent = None\<rparr>"
  have k1: "''Skewness'' \<in> set [''Pixel sum'', ''Pixel mean'', ''Standard deviation'', ''Skewness'',
                        ''Kurtosis'', ''Minimum pixel value'', ''Maximum pixel value'',
                        ''Total number of pixels'', ''Number of pixels used'',
                        ''No. of pixels excluded'']" by simp
  have k2: "''Total number of pixels'' \<in> set [''Pixel sum'', ''Pixel mean'', ''Standard deviation'',
                        ''Skewness'', ''Kurtosis'', ''Minimum pixel value'', ''Maximum pixel value'',
                        ''Total number of pixels'', ''Number of pixels used'',
                        ''No. of pixels excluded'']" by simp
  have n: "'' '' \<noteq> []" "''  '' \<noteq> []" "''   '' \<noteq> []" "[CHR 0x09] \<noteq> []" by simp_all
  have sp: "list_all isspace '' ''" "list_all isspace ''  ''" "list_all isspace ''   ''"
    "list_all isspace [CHR 0x09]" by (simp_all add: isspace_def)
  note t1 = whitespace_tolerance [OF k1 n(1) sp(1) n(3) sp(3) n(4) sp(4) n(2) sp(2)]
  note t2 = whitespace_tolerance [OF k2 n(2) sp(2) n(1) sp(1) n(1) sp(1) n(1) sp(1)]
  have h1: "''Skewness'' \<in> set [''Pixel sum'', ''Pixel mean'', ''Standard deviation'', ''Skewness'',
                          ''Kurtosis'', ''Minimum pixel value'', ''Maximum pixel value'']
            \<and> spec_token_ok ?tk
            \<and> (fraction ?tk = None \<and> exponent ?tk = None
                 \<longrightarrow> length (whole ?tk) \<le> int_max_str_digits)"
    by (simp add: spec_token_ok_def isdecimal_def)
  have h2: "''Total number of pixels'' \<in> set [''Total number of pixels'', ''Number of pixels used'',
                          ''No. of pixels excluded'']
            \<and> ''100'' \<noteq> [] \<and> list_all isdecimal ''100'' \<and> length ''100'' \<le> int_max_str_digits"
    by (simp add: isdecimal_def int_max_str_digits_def)
  from t1 [THEN conjunct1, of "''-0.3 ok''"]
    t1 [THEN conjunct2, THEN conjunct1, rule_format, OF h1]
    t2 [THEN conjunct2, THEN conjunct2, rule_format, OF h2]
  show ?thesis by (intro conjI)
qed

end
